theory Spec2Isabelle
  imports Complex_Main "HOL-Library.Sublist" "HOL-Library.Multiset"
begin

section \<open>The example ledger (table \<open>code_examples\<close>)\<close>

text \<open>
  A JavaScript exception value as the code inspects it: \<open>error.message\<close> and
  \<open>error.code\<close> (absent on a plain \<open>Error\<close>).
\<close>

record js_error =
  message :: string
  code :: "string option"

text \<open>
  One row of \<open>code_examples\<close>, column by column. \<open>success\<close> is the SQL INTEGER the
  statements compare with 0 and 1; the embedding column holds the JSON text of the vector,
  kept here as the vector itself; a nullable column is an option.
\<close>

record example_row =
  row_id :: int
  row_task :: string
  row_code :: string
  row_language :: string
  row_framework :: "string option"
  row_tool :: string
  row_success :: int
  row_embedding :: "real list"
  row_timestamp :: int
  row_error_message :: "string option"
  row_error_type :: "string option"

text \<open>
  \<open>SELECT k, COUNT(*) ... GROUP BY k\<close>: one output row per distinct key, with the number of
  input rows that carry it. \<open>Object.fromEntries\<close> turns the rows into a dictionary, a later
  entry winning over an earlier one.
\<close>

definition group_count :: "('r \<Rightarrow> 'k) \<Rightarrow> 'r list \<Rightarrow> ('k \<times> nat) list" where
  "group_count key rs =
     map (\<lambda>k. (k, length (filter (\<lambda>r. key r = k) rs))) (remdups (map key rs))"

definition fromEntries :: "('k \<times> 'v) list \<Rightarrow> ('k \<rightharpoonup> 'v)" where
  "fromEntries kvs = map_of (rev kvs)"

record example_stats =
  total_count :: nat
  byTool :: "string \<rightharpoonup> nat"
  byLanguage :: "string \<rightharpoonup> nat"

text \<open>\<open>CodeRetrievalService.getStats\<close>: three queries, each with \<open>WHERE success = 1\<close>.\<close>

definition getStats :: "example_row list \<Rightarrow> example_stats" where
  "getStats db =
     (let total = length (filter (\<lambda>r. row_success r = 1) db);
          byToolRows = group_count row_tool (filter (\<lambda>r. row_success r = 1) db);
          byLangRows = group_count row_language (filter (\<lambda>r. row_success r = 1) db)
      in \<lparr>total_count = total, byTool = fromEntries byToolRows, byLanguage = fromEntries byLangRows\<rparr>)"

record recent_error =
  re_task :: string
  re_errorType :: "string option"
  re_timestamp :: int

record error_stats =
  totalErrors :: nat
  byErrorType :: "string \<rightharpoonup> nat"
  errByLanguage :: "string \<rightharpoonup> nat"
  recentErrors :: "recent_error list"

text \<open>
  \<open>ORDER BY timestamp DESC LIMIT n\<close>. SQL leaves the order of equal timestamps open; the
  model keeps table order among them.
\<close>

definition order_by_timestamp_desc :: "example_row list \<Rightarrow> example_row list" where
  "order_by_timestamp_desc rs = sort_key (\<lambda>r. - row_timestamp r) rs"

text \<open>
  \<open>CodeRetrievalService.getErrorStats\<close>: four queries, each with \<open>WHERE success = 0\<close>; the
  grouping by error type also requires \<open>error_type IS NOT NULL\<close>.
\<close>

definition getErrorStats :: "example_row list \<Rightarrow> error_stats" where
  "getErrorStats db =
     (let totalErrors = length (filter (\<lambda>r. row_success r = 0) db);
          byTypeRows = group_count (\<lambda>r. the (row_error_type r))
             (filter (\<lambda>r. row_success r = 0 \<and> row_error_type r \<noteq> None) db);
          byLangRows = group_count row_language (filter (\<lambda>r. row_success r = 0) db);
          recentRows = take 10 (order_by_timestamp_desc (filter (\<lambda>r. row_success r = 0) db))
      in \<lparr>totalErrors = totalErrors,
          byErrorType = fromEntries byTypeRows,
          errByLanguage = fromEntries byLangRows,
          recentErrors = map (\<lambda>r. \<lparr>re_task = row_task r, re_errorType = row_error_type r,
                                     re_timestamp = row_timestamp r\<rparr>) recentRows\<rparr>)"

text \<open>The count a grouped dictionary reports for a key: absent when no row carries it.\<close>

definition count_entry :: "nat \<Rightarrow> nat option" where
  "count_entry n = (if n = 0 then None else Some n)"

section \<open>Storing and retrieving examples (\<open>CodeRetrievalService\<close>)\<close>

text \<open>
  The argument of \<open>storeExample\<close>: a \<open>CodeExample\<close> without \<open>id\<close>, \<open>embedding\<close> and
  \<open>timestamp\<close>. An optional field is an option.
\<close>

record example_input =
  ex_task :: string
  ex_code :: string
  ex_language :: string
  ex_framework :: "string option"
  ex_tool :: string
  ex_success :: bool
  ex_errorMessage :: "string option"
  ex_errorType :: "string option"

text \<open>The payload of a \<open>CodePoint\<close> and the point itself (dense vector only).\<close>

record point_payload =
  p_task :: string
  p_code :: string
  p_chunkType :: string
  p_language :: string
  p_framework :: "string option"
  p_filePath :: "string option"
  p_imports :: "string list"
  p_exports :: "string list"
  p_patterns :: "string list"
  p_success :: bool
  p_tool :: string
  p_timestamp :: int
  p_codeHash :: string

record code_point =
  cp_id :: int
  cp_dense :: "real list"
  cp_payload :: point_payload

text \<open>A \<open>SearchResult\<close>; by its declared type the payload is always present.\<close>

record search_result =
  sr_id :: int
  sr_score :: real
  sr_payload :: point_payload

text \<open>A Qdrant filter: the conjunction \<open>must\<close> of key/value matches.\<close>

datatype match_value = MatchBool bool | MatchStr string

type_synonym qdrant_filter = "(string \<times> match_value) list"

text \<open>
  What the service reaches outside itself, as parameters. \<open>'q\<close> is the state of the remote
  Qdrant collection, which the service only touches through the client.
  \<^item> \<open>generateEmbedding\<close>: \<open>EmbeddingService.generateEmbedding\<close>, of which the callers read
    the \<open>embedding\<close> field only; it throws or returns the vector;
  \<^item> \<open>sqlite_fault\<close>: the error SQLite raises when a statement cannot run, if any;
  \<^item> \<open>current_timestamp\<close>, \<open>date_now\<close>: the clocks behind \<open>CURRENT_TIMESTAMP\<close> and
    \<open>Date.now()\<close>;
  \<^item> \<open>client_upsert\<close>, \<open>client_search\<close>: the Qdrant client's \<open>upsert\<close> and \<open>search\<close>.
\<close>

record 'q retrieval_env =
  generateEmbedding :: "string \<Rightarrow> js_error + real list"
  sqlite_fault :: "js_error option"
  current_timestamp :: int
  date_now :: int
  client_upsert :: "'q \<Rightarrow> code_point \<Rightarrow> js_error + 'q"
  client_search :: "'q \<Rightarrow> real list \<Rightarrow> int \<Rightarrow> qdrant_filter \<Rightarrow> js_error + search_result list"

text \<open>
  The service's stores: the \<open>code_examples\<close> table, the AUTOINCREMENT counter SQLite keeps
  for it (the largest row id ever handed out), and the Qdrant collection.
\<close>

record 'q retrieval_state =
  code_examples :: "example_row list"
  sqlite_sequence :: int
  qdrant :: 'q

text \<open>JavaScript's \<open>x || null\<close> and \<open>if (x)\<close> on an optional string: the empty string is falsy.\<close>

definition or_null :: "string option \<Rightarrow> string option" where
  "or_null x = (case x of None \<Rightarrow> None | Some s \<Rightarrow> if s = [] then None else Some s)"

definition truthy :: "string option \<Rightarrow> bool" where
  "truthy x = (case x of None \<Rightarrow> False | Some s \<Rightarrow> s \<noteq> [])"

text \<open>
  The INSERT of \<open>storeExample\<close>: a fault of the database is thrown; otherwise the row is
  appended under the next AUTOINCREMENT id, which is \<open>lastInsertRowid\<close>.
\<close>

definition next_rowid :: "'q retrieval_state \<Rightarrow> int" where
  "next_rowid st = foldr max (map row_id (code_examples st)) (sqlite_sequence st) + 1"

definition insert_example ::
  "'q retrieval_env \<Rightarrow> 'q retrieval_state \<Rightarrow> example_input \<Rightarrow> real list
     \<Rightarrow> js_error + (int \<times> 'q retrieval_state)" where
  "insert_example env st example embedding =
     (case sqlite_fault env of
        Some e \<Rightarrow> Inl e
      | None \<Rightarrow>
          (let insertId = next_rowid st;
               row = \<lparr>row_id = insertId,
                      row_task = ex_task example,
                      row_code = ex_code example,
                      row_language = ex_language example,
                      row_framework = or_null (ex_framework example),
                      row_tool = ex_tool example,
                      row_success = (if ex_success example then 1 else 0),
                      row_embedding = embedding,
                      row_timestamp = current_timestamp env,
                      row_error_message = or_null (ex_errorMessage example),
                      row_error_type = or_null (ex_errorType example)\<rparr>
           in Inr (insertId, st\<lparr>code_examples := code_examples st @ [row],
                                  sqlite_sequence := insertId\<rparr>)))"

text \<open>\<open>QdrantService.upsertPoint\<close>: one call of the client.\<close>

definition upsertPoint :: "'q retrieval_env \<Rightarrow> 'q \<Rightarrow> code_point \<Rightarrow> js_error + 'q" where
  "upsertPoint env q point = client_upsert env q point"

text \<open>The \<open>CodePoint\<close> that \<open>storeExample\<close> builds for a stored row.\<close>

definition example_point :: "'q retrieval_env \<Rightarrow> example_input \<Rightarrow> int \<Rightarrow> real list \<Rightarrow> code_point" where
  "example_point env example insertId embedding =
     \<lparr>cp_id = insertId,
      cp_dense = embedding,
      cp_payload =
        \<lparr>p_task = ex_task example,
         p_code = ex_code example,
         p_chunkType = ''full_file'',
         p_language = ex_language example,
         p_framework = ex_framework example,
         p_filePath = None,
         p_imports = [],
         p_exports = [],
         p_patterns = [],
         p_success = ex_success example,
         p_tool = ex_tool example,
         p_timestamp = date_now env,
         p_codeHash = []\<rparr>\<rparr>"

text \<open>
  \<open>CodeRetrievalService.storeExample\<close>. The outer \<open>try\<close> rethrows what the embedding or the
  INSERT throws. The inner \<open>try\<close> around the upsert catches its error, logs a warning and
  goes on, so the state keeps the new row and the old collection. The result is the thrown
  error or the returned id, with the state the call leaves behind.
\<close>

definition storeExample ::
  "'q retrieval_env \<Rightarrow> 'q retrieval_state \<Rightarrow> example_input
     \<Rightarrow> (js_error + int) \<times> 'q retrieval_state" where
  "storeExample env st example =
     (case generateEmbedding env (ex_task example) of
        Inl error \<Rightarrow> (Inl error, st)
      | Inr embedding \<Rightarrow>
          (case insert_example env st example embedding of
             Inl error \<Rightarrow> (Inl error, st)
           | Inr (insertId, st1) \<Rightarrow>
               (let codePoint = example_point env example insertId embedding
                in (case upsertPoint env (qdrant st1) codePoint of
                      Inl qdrantError \<Rightarrow> (Inr insertId, st1)
                    | Inr q \<Rightarrow> (Inr insertId, st1\<lparr>qdrant := q\<rparr>)))))"

text \<open>
  The options of \<open>retrieveSimilarExamples\<close> and the two defaults it reads from the
  environment, \<open>parseInt(RAG_TOP_K || '3')\<close> and \<open>parseFloat(RAG_SIMILARITY_THRESHOLD || '0.6')\<close>,
  taken as already parsed. A destructuring default replaces an absent option only.
\<close>

record retrieve_options =
  opt_tool :: "string option"
  opt_language :: "string option"
  opt_topK :: "int option"
  opt_threshold :: "real option"

record retrieval_defaults =
  defaultTopK :: int
  defaultThreshold :: real

record retrieved_example =
  rx_id :: int
  rx_task :: string
  rx_code :: string
  rx_language :: string
  rx_framework :: "string option"
  rx_tool :: string
  rx_success :: bool
  rx_timestamp :: int

record retrieval_result =
  rr_similarity :: real
  rr_example :: retrieved_example

text \<open>
  \<open>QdrantService.searchDense\<close>: \<open>options?.topK || 5\<close> replaces an absent and a zero
  \<open>topK\<close> by 5; the client's answer is passed on field by field.
\<close>

definition searchDense ::
  "'q retrieval_env \<Rightarrow> 'q \<Rightarrow> real list \<Rightarrow> int option \<Rightarrow> qdrant_filter
     \<Rightarrow> js_error + search_result list" where
  "searchDense env q denseVector topK flt =
     (let limit = (case topK of None \<Rightarrow> 5 | Some k \<Rightarrow> if k = 0 then 5 else k)
      in case client_search env q denseVector limit flt of
           Inl e \<Rightarrow> Inl e
         | Inr response \<Rightarrow>
             Inr (map (\<lambda>p. \<lparr>sr_id = sr_id p, sr_score = sr_score p, sr_payload = sr_payload p\<rparr>)
                    response))"

text \<open>
  The filter \<open>retrieveSimilarExamples\<close> builds (success, then tool and language if truthy)
  and the result it makes of a search result. Point ids are the integer row ids that
  \<open>storeExample\<close> wrote, which \<open>parseInt\<close> gives back; a \<open>Date\<close> is kept as its number.
\<close>

definition build_filter :: "string option \<Rightarrow> string option \<Rightarrow> qdrant_filter" where
  "build_filter tool language =
     [(''success'', MatchBool True)]
     @ (if truthy tool then [(''tool'', MatchStr (the tool))] else [])
     @ (if truthy language then [(''language'', MatchStr (the language))] else [])"

definition to_retrieval_result :: "search_result \<Rightarrow> retrieval_result" where
  "to_retrieval_result result =
     \<lparr>rr_similarity = sr_score result,
      rr_example = \<lparr>rx_id = sr_id result,
                    rx_task = p_task (sr_payload result),
                    rx_code = p_code (sr_payload result),
                    rx_language = p_language (sr_payload result),
                    rx_framework = p_framework (sr_payload result),
                    rx_tool = p_tool (sr_payload result),
                    rx_success = p_success (sr_payload result),
                    rx_timestamp = p_timestamp (sr_payload result)\<rparr>\<rparr>"

text \<open>
  \<open>CodeRetrievalService.retrieveSimilarExamples\<close>. Everything from the embedding on is inside
  one \<open>try\<close> whose \<open>catch\<close> logs and returns the empty array. The call reads the stores and
  writes nothing. A result of the form \<open>Inl e\<close> would be an exception reaching the caller.
\<close>

definition retrieveSimilarExamples ::
  "'q retrieval_env \<Rightarrow> retrieval_defaults \<Rightarrow> 'q retrieval_state \<Rightarrow> string \<Rightarrow> retrieve_options
     \<Rightarrow> js_error + retrieval_result list" where
  "retrieveSimilarExamples env cfg st task options =
     (let tool = opt_tool options;
          language = opt_language options;
          topK = (case opt_topK options of None \<Rightarrow> defaultTopK cfg | Some k \<Rightarrow> k);
          threshold = (case opt_threshold options of None \<Rightarrow> defaultThreshold cfg | Some t \<Rightarrow> t)
      in case generateEmbedding env task of
           Inl error \<Rightarrow> Inr []
         | Inr queryEmbedding \<Rightarrow>
             (case searchDense env (qdrant st) queryEmbedding (Some topK)
                     (build_filter tool language) of
                Inl error \<Rightarrow> Inr []
              | Inr searchResults \<Rightarrow>
                  Inr (map to_retrieval_result
                         (filter (\<lambda>result. sr_score result \<ge> threshold) searchResults))))"

section \<open>JavaScript numbers\<close>

text \<open>
  A JavaScript number is an IEEE-754 double: a finite value, an infinity or \<open>NaN\<close>. The
  two zeros are one value here; nothing below tells them apart. An arithmetic operation
  computes the exact result and rounds it to a double. The rounding is a parameter \<open>fl\<close> of
  every function that computes with numbers: it takes the exact result to the double the
  runtime delivers, an infinity when the result overflows.
\<close>

datatype js_number = Num real | PosInf | NegInf | NaN

type_synonym rounding = "real \<Rightarrow> js_number"

fun js_add :: "rounding \<Rightarrow> js_number \<Rightarrow> js_number \<Rightarrow> js_number" where
  "js_add fl (Num x) (Num y) = fl (x + y)"
| "js_add fl NaN b = NaN"
| "js_add fl a NaN = NaN"
| "js_add fl PosInf NegInf = NaN"
| "js_add fl NegInf PosInf = NaN"
| "js_add fl PosInf b = PosInf"
| "js_add fl a PosInf = PosInf"
| "js_add fl NegInf b = NegInf"
| "js_add fl a NegInf = NegInf"

text \<open>An infinity times or over a finite number: the sign follows the two signs.\<close>

definition signed_inf :: "bool \<Rightarrow> js_number" where
  "signed_inf positive = (if positive then PosInf else NegInf)"

fun js_mul :: "rounding \<Rightarrow> js_number \<Rightarrow> js_number \<Rightarrow> js_number" where
  "js_mul fl (Num x) (Num y) = fl (x * y)"
| "js_mul fl NaN b = NaN"
| "js_mul fl a NaN = NaN"
| "js_mul fl PosInf (Num y) = (if y = 0 then NaN else signed_inf (0 < y))"
| "js_mul fl NegInf (Num y) = (if y = 0 then NaN else signed_inf (y < 0))"
| "js_mul fl (Num x) PosInf = (if x = 0 then NaN else signed_inf (0 < x))"
| "js_mul fl (Num x) NegInf = (if x = 0 then NaN else signed_inf (x < 0))"
| "js_mul fl PosInf PosInf = PosInf"
| "js_mul fl NegInf NegInf = PosInf"
| "js_mul fl PosInf NegInf = NegInf"
| "js_mul fl NegInf PosInf = NegInf"

text \<open>
  Division. A finite number over zero is an infinity, \<open>0 / 0\<close> is \<open>NaN\<close>. The zero
  divisors that occur below are products of square roots, so they are the positive zero.
\<close>

fun js_div :: "rounding \<Rightarrow> js_number \<Rightarrow> js_number \<Rightarrow> js_number" where
  "js_div fl (Num x) (Num y) =
     (if y = 0 then (if x = 0 then NaN else signed_inf (0 < x)) else fl (x / y))"
| "js_div fl NaN b = NaN"
| "js_div fl a NaN = NaN"
| "js_div fl (Num x) PosInf = Num 0"
| "js_div fl (Num x) NegInf = Num 0"
| "js_div fl PosInf (Num y) = signed_inf (0 \<le> y)"
| "js_div fl NegInf (Num y) = signed_inf (y < 0)"
| "js_div fl PosInf b = NaN"
| "js_div fl NegInf b = NaN"

fun js_sqrt :: "rounding \<Rightarrow> js_number \<Rightarrow> js_number" where
  "js_sqrt fl (Num x) = (if x < 0 then NaN else fl (sqrt x))"
| "js_sqrt fl PosInf = PosInf"
| "js_sqrt fl NegInf = NaN"
| "js_sqrt fl NaN = NaN"

text \<open>\<open>Math.round\<close>: the nearest integer, a tie going up; the result is exact.\<close>

fun js_math_round :: "js_number \<Rightarrow> js_number" where
  "js_math_round (Num x) = Num (of_int \<lfloor>x + 1 / 2\<rfloor>)"
| "js_math_round a = a"



text \<open>
  The rounding of IEEE-754 binary64, to nearest with ties to even: a nonzero \<open>x\<close> with
  \<open>2^e \<le> |x| < 2^(e+1)\<close> is rounded to a multiple of \<open>2^(e-52)\<close>, where \<open>e\<close> is at least
  \<open>-1022\<close> (below that the doubles are evenly spaced, and a result under half the smallest
  one is 0); a rounded value of \<open>2^1024\<close> or more is an infinity.
\<close>

definition round_half_even :: "real \<Rightarrow> int" where
  "round_half_even y =
     (let n = \<lfloor>y\<rfloor>; r = y - of_int n
      in if r < 1 / 2 then n else if 1 / 2 < r then n + 1 else if even n then n else n + 1)"

definition round_double :: rounding where
  "round_double x =
     (if x = 0 then Num 0
      else (let e = max (- 1022) \<lfloor>log 2 \<bar>x\<bar>\<rfloor>;
                ulp = 2 powr (of_int e - 52);
                y = of_int (round_half_even (x / ulp)) * ulp
            in if 2 powr 1024 \<le> \<bar>y\<bar> then signed_inf (0 < x) else Num y))"

text \<open>
  What the analysis of a computation uses of a rounding, with \<open>u = 2^-53\<close>, \<open>lo\<close> the
  smallest normal double and \<open>hi\<close> a bound under the largest double: zero is exact; an
  exact result between \<open>lo\<close> and \<open>hi\<close> in size is rounded to a number off by at most \<open>u\<close>
  times its size; an exact result under \<open>lo\<close> in size is rounded to a number of size at
  most \<open>lo\<close>.
\<close>

definition rounds_within :: "real \<Rightarrow> real \<Rightarrow> real \<Rightarrow> rounding \<Rightarrow> bool" where
  "rounds_within u lo hi fl =
     (fl 0 = Num 0
      \<and> (\<forall>x. lo \<le> \<bar>x\<bar> \<and> \<bar>x\<bar> \<le> hi \<longrightarrow> (\<exists>y. fl x = Num y \<and> \<bar>y - x\<bar> \<le> u * \<bar>x\<bar>))
      \<and> (\<forall>x. \<bar>x\<bar> < lo \<longrightarrow> (\<exists>y. fl x = Num y \<and> \<bar>y\<bar> \<le> lo)))"




section \<open>The embedding service (\<open>EmbeddingService\<close>, API backend)\<close>

text \<open>\<open>haystack.includes(needle)\<close> on strings.\<close>

fun str_includes :: "string \<Rightarrow> string \<Rightarrow> bool" where
  "str_includes [] needle = (needle = [])"
| "str_includes (c # cs) needle = (prefix needle (c # cs) \<or> str_includes cs needle)"

text \<open>A number inside a template string: its decimal digits.\<close>

definition digit_char :: "nat \<Rightarrow> char" where
  "digit_char d = ''0123456789'' ! d"

fun string_of_nat :: "nat \<Rightarrow> string" where
  "string_of_nat n =
     (if n < 10 then [digit_char n] else string_of_nat (n div 10) @ [digit_char (n mod 10)])"

declare string_of_nat.simps [simp del]

text \<open>\<open>new Error(msg)\<close>: a message and no \<open>code\<close>.\<close>

definition Error :: "string \<Rightarrow> js_error" where
  "Error msg = \<lparr>message = msg, code = None\<rparr>"

text \<open>
  The fields of the service that the API path reads. \<open>maxRetries\<close> is
  \<open>parseInt(RAG_MAX_RETRIES || '3')\<close>, taken as already parsed.
\<close>

record embedding_service =
  apiKey :: string
  baseURL :: string
  defaultModel :: string
  maxRetries :: int

record embedding_cost =
  cost_currency :: string
  cost_amount :: js_number
  cost_inputTokens :: nat
  cost_outputTokens :: nat
  cost_rate :: js_number

record embedding_result =
  er_embedding :: "real list"
  er_tokens :: nat
  er_model :: string
  er_cost :: embedding_cost

text \<open>
  \<open>calculateEmbeddingCost\<close>: the rate of the model, 0 for a model the table does not list,
  times the tokens, rounded to six decimals with \<open>Math.round\<close>. A rate of the table is the
  quotient of two literals, \<open>0.02 / 1000000\<close>; the literal \<open>0.02\<close> is itself the double
  nearest to it.
\<close>

definition pricing :: "rounding \<Rightarrow> string \<rightharpoonup> js_number" where
  "pricing fl =
     [''openai/text-embedding-3-small'' \<mapsto> js_div fl (fl (2 / 100)) (Num 1000000),
      ''openai/text-embedding-3-large'' \<mapsto> js_div fl (fl (13 / 100)) (Num 1000000),
      ''openai/text-embedding-ada-002'' \<mapsto> js_div fl (fl (10 / 100)) (Num 1000000),
      ''mock-embedding-v1'' \<mapsto> Num 0]"

definition calculateEmbeddingCost :: "rounding \<Rightarrow> string \<Rightarrow> nat \<Rightarrow> embedding_cost" where
  "calculateEmbeddingCost fl model tokens =
     (let rate = (case pricing fl model of None \<Rightarrow> Num 0 | Some r \<Rightarrow> r);
          amount = js_mul fl (Num (of_nat tokens)) rate
      in \<lparr>cost_currency = ''USD'',
          cost_amount = js_div fl (js_math_round (js_mul fl amount (Num 1000000))) (Num 1000000),
          cost_inputTokens = tokens,
          cost_outputTokens = 0,
          cost_rate = rate\<rparr>)"

text \<open>
  What one call of \<open>fetch\<close> comes to: it rejects with an error, or it resolves to a
  response with a status, a body text and, for an \<open>ok\<close> response, the outcome of reading
  \<open>data.data[0].embedding\<close> and \<open>data.usage?.total_tokens\<close> from the JSON body (which
  throws when the body is not of that shape).
\<close>

record api_data =
  data_embedding :: "real list"
  data_total_tokens :: "nat option"

datatype fetch_outcome =
    FetchRejected js_error
  | Response nat string "js_error + api_data"

definition response_ok :: "nat \<Rightarrow> bool" where
  "response_ok status = (200 \<le> status \<and> status \<le> 299)"

text \<open>
  The \<open>catch\<close> inside the function that \<open>generateAPIEmbedding\<close> hands to
  \<open>retryWithBackoff\<close>: it replaces a connection-refused error, an error whose message
  contains \<open>401\<close> and one whose message contains \<open>429\<close> by a new error with a fixed
  text, and rethrows any other error as it is.
\<close>

definition rethrow_specific :: "embedding_service \<Rightarrow> js_error \<Rightarrow> js_error" where
  "rethrow_specific svc error =
     (if code error = Some ''ConnectionRefused'' \<or> code error = Some ''ECONNREFUSED''
      then Error (''Cannot connect to OpenRouter API at '' @ baseURL svc
                  @ ''/embeddings. Please check your network connection and API configuration.'')
      else if str_includes (message error) ''401''
      then Error ''Invalid OpenRouter API key. Please check your OPENROUTER_API_KEY configuration.''
      else if str_includes (message error) ''429''
      then Error ''OpenRouter API rate limit exceeded. Please try again later.''
      else error)"

text \<open>One run of that function, on the outcome of its \<open>fetch\<close>.\<close>

definition api_attempt ::
  "rounding \<Rightarrow> embedding_service \<Rightarrow> string \<Rightarrow> fetch_outcome
     \<Rightarrow> js_error + embedding_result" where
  "api_attempt fl svc model outcome =
     (case outcome of
        FetchRejected error \<Rightarrow> Inl (rethrow_specific svc error)
      | Response status errorText json \<Rightarrow>
          if \<not> response_ok status
          then Inl (rethrow_specific svc
                 (Error (''Embedding API error: '' @ string_of_nat status @ '' - '' @ errorText)))
          else (case json of
                  Inl error \<Rightarrow> Inl (rethrow_specific svc error)
                | Inr data \<Rightarrow>
                    (let tokens = (case data_total_tokens data of None \<Rightarrow> 0 | Some n \<Rightarrow> n)
                     in Inr \<lparr>er_embedding = data_embedding data,
                             er_tokens = tokens,
                             er_model = model,
                             er_cost = calculateEmbeddingCost fl model tokens\<rparr>)))"

text \<open>The test \<open>retryWithBackoff\<close> applies to the message of the error it caught.\<close>

definition isRetryable :: "js_error \<Rightarrow> bool" where
  "isRetryable error =
     (str_includes (message error) ''fetch failed''
      \<or> str_includes (message error) ''ECONNREFUSED''
      \<or> str_includes (message error) ''429''
      \<or> str_includes (message error) ''5'')"

text \<open>
  \<open>retryWithBackoff(fn, retries, delay)\<close>. \<open>fn i\<close> is what the \<open>i\<close>-th run of \<open>fn\<close> comes
  to; \<open>slept\<close> collects the delays waited so far, and the result carries them and the number
  of runs of \<open>fn\<close> made. The recursion ends when \<open>retries\<close> reaches 0 exactly, as the test
  \<open>retries === 0\<close> has it, so the function is partial: \<open>None\<close> is a call that never
  returns.
\<close>

partial_function (option) retryWithBackoff ::
  "(nat \<Rightarrow> js_error + 'a) \<Rightarrow> nat \<Rightarrow> int \<Rightarrow> int \<Rightarrow> int list
     \<Rightarrow> ((js_error + 'a) \<times> int list \<times> nat) option" where
  "retryWithBackoff fn i retries delay slept =
     (case fn i of
        Inr v \<Rightarrow> Some (Inr v, slept, Suc i)
      | Inl error \<Rightarrow>
          if retries = 0 then Some (Inl error, slept, Suc i)
          else if \<not> isRetryable error then Some (Inl error, slept, Suc i)
          else retryWithBackoff fn (Suc i) (retries - 1) (delay * 2) (slept @ [delay]))"

text \<open>
  \<open>generateAPIEmbedding\<close>: without an API key it throws at once; otherwise it retries the
  request, starting from \<open>maxRetries\<close> and a delay of 1000 ms. \<open>net i\<close> is the outcome of the
  \<open>i\<close>-th \<open>fetch\<close>. \<open>model\<close> is \<open>options?.model\<close>. The rounding \<open>fl\<close> is used for the cost only.
\<close>

definition generateAPIEmbedding ::
  "rounding \<Rightarrow> embedding_service \<Rightarrow> (nat \<Rightarrow> fetch_outcome) \<Rightarrow> string option
     \<Rightarrow> ((js_error + embedding_result) \<times> int list \<times> nat) option" where
  "generateAPIEmbedding fl svc net model =
     (if apiKey svc = []
      then Some (Inl (Error ''OPENROUTER_API_KEY must be configured for API embedding backend''),
                 [], 0)
      else retryWithBackoff
             (\<lambda>i. api_attempt fl svc (if truthy model then the model else defaultModel svc)
                    (net i))
             0 (maxRetries svc) 1000 [])"

text \<open>
  \<open>cosineSimilarity\<close>, the same loop in \<open>EmbeddingService\<close> and in
  \<open>CodebaseIndexerService\<close>; only the text of the error differs. The elements of the two
  vectors are finite; the three sums start at 0 and every \<open>+=\<close> rounds a product and then a
  sum.
\<close>

fun cosine_loop ::
  "rounding \<Rightarrow> real list \<Rightarrow> real list \<Rightarrow> js_number \<times> js_number \<times> js_number
     \<Rightarrow> js_number \<times> js_number \<times> js_number" where
  "cosine_loop fl (x # xs) (y # ys) (dotProduct, normA, normB) =
     cosine_loop fl xs ys
       (js_add fl dotProduct (js_mul fl (Num x) (Num y)),
        js_add fl normA (js_mul fl (Num x) (Num x)),
        js_add fl normB (js_mul fl (Num y) (Num y)))"
| "cosine_loop fl [] ys acc = acc"
| "cosine_loop fl xs [] acc = acc"

definition cosine_with ::
  "rounding \<Rightarrow> string \<Rightarrow> real list \<Rightarrow> real list \<Rightarrow> js_error + js_number" where
  "cosine_with fl msg a b =
     (if length a \<noteq> length b then Inl (Error msg)
      else (case cosine_loop fl a b (Num 0, Num 0, Num 0) of
              (dotProduct, normA, normB) \<Rightarrow>
                Inr (js_div fl dotProduct (js_mul fl (js_sqrt fl normA) (js_sqrt fl normB)))))"

definition cosineSimilarity :: "rounding \<Rightarrow> real list \<Rightarrow> real list \<Rightarrow> js_error + js_number" where
  "cosineSimilarity fl a b = cosine_with fl ''Embeddings must have same dimensions'' a b"

section \<open>The codebase indexer (\<open>CodebaseIndexerService\<close>)\<close>

text \<open>A chunk as the chunker returns it, and a row of the table \<open>code_chunks\<close>.\<close>

record code_chunk =
  ck_code :: string
  ck_startLine :: nat
  ck_endLine :: nat
  ck_type :: string
  ck_name :: "string option"
  ck_language :: string

record chunk_row =
  cc_id :: string
  cc_file_path :: string
  cc_relative_path :: string
  cc_content :: string
  cc_start_line :: nat
  cc_end_line :: nat
  cc_chunk_type :: string
  cc_chunk_name :: "string option"
  cc_language :: string
  cc_embedding :: "real list"
  cc_last_modified :: real
  cc_created_at :: int

text \<open>The single row of \<open>index_stats\<close> and the \<open>IndexStats\<close> object the service returns.\<close>

record index_stats_row =
  total_files :: int
  total_chunks :: int
  last_indexed :: int
  index_duration :: int

record index_stats =
  totalFiles :: int
  totalChunks :: int
  lastIndexed :: int
  indexDuration :: int

text \<open>
  What the indexer does outside its own fields, in the order it does it: calls of
  \<open>stat\<close>, \<open>readFile\<close>, the chunker, the embedding service and \<open>glob\<close>, and the
  DELETE and INSERT statements on \<open>code_chunks\<close>.
\<close>

datatype io_event =
    EvStat string
  | EvReadFile string
  | EvChunkCode string string
  | EvEmbed string
  | EvGlob
  | EvDelete string
  | EvInsert string

text \<open>
  The collaborators, as parameters: \<open>path.extname\<close> and \<open>path.relative\<close>, the ignore filter
  (\<open>null\<close> until the patterns are loaded; \<open>ignores\<close> throws on a path it does not accept),
  \<open>stat(...).mtimeMs\<close>, \<open>readFile\<close>, \<open>ASTCodeChunker.chunkCode\<close>,
  \<open>EmbeddingService.generateEmbedding\<close> (its \<open>embedding\<close> field), the rounding of a number
  to a \<open>Float32Array\<close> element, the answer of \<open>glob\<close>, SQLite's \<open>unixepoch()\<close> and the three
  readings of \<open>Date.now()\<close> in \<open>indexCodebase\<close>; the rounding of the runtime's double
  arithmetic; whether \<open>EMBEDDING_BACKEND\<close> is \<open>'api'\<close>; and, for each batch of a pass, the
  order in which the runtime resumes the files of the batch that wait at an \<open>await\<close>.
\<close>

record indexer_env =
  ix_projectRoot :: string
  ix_extname :: "string \<Rightarrow> string"
  ix_relative :: "string \<Rightarrow> string \<Rightarrow> string"
  ix_ignoreFilter :: "(string \<Rightarrow> js_error + bool) option"
  ix_stat :: "string \<Rightarrow> js_error + real"
  ix_readFile :: "string \<Rightarrow> js_error + string"
  ix_chunkCode :: "string \<Rightarrow> string \<Rightarrow> js_error + code_chunk list"
  ix_generateEmbedding :: "string \<Rightarrow> js_error + real list"
  ix_float32 :: "real \<Rightarrow> real"
  ix_glob :: "js_error + string list"
  ix_unixepoch :: int
  ix_date_now :: "int \<times> int \<times> int"
  ix_double :: rounding
  ix_apiBackend :: bool
  ix_schedule :: "nat \<Rightarrow> nat list"

record indexer_state =
  code_chunks :: "chunk_row list"
  index_stats_table :: index_stats_row
  isIndexing :: bool
  trace :: "io_event list"

definition emit :: "io_event \<Rightarrow> indexer_state \<Rightarrow> indexer_state" where
  "emit ev st = st\<lparr>trace := trace st @ [ev]\<rparr>"

definition SUPPORTED_EXTENSIONS :: "string list" where
  "SUPPORTED_EXTENSIONS = [''.ts'', ''.tsx'', ''.js'', ''.jsx'', ''.py'']"

text \<open>\<open>shouldIndexFile\<close>: the extension is supported and the ignore filter, if loaded, lets the
  relative path through.\<close>

definition shouldIndexFile :: "indexer_env \<Rightarrow> string \<Rightarrow> js_error + bool" where
  "shouldIndexFile env filePath =
     (let ext = ix_extname env filePath
      in if ext \<notin> set SUPPORTED_EXTENSIONS then Inr False
         else (case ix_ignoreFilter env of
                 None \<Rightarrow> Inr True
               | Some ignores \<Rightarrow>
                   (case ignores (ix_relative env (ix_projectRoot env) filePath) of
                      Inl e \<Rightarrow> Inl e
                    | Inr ignored \<Rightarrow> if ignored then Inr False else Inr True)))"

definition getLanguage :: "indexer_env \<Rightarrow> string \<Rightarrow> string" where
  "getLanguage env filePath =
     (let ext = ix_extname env filePath
      in if ext = ''.ts'' \<or> ext = ''.tsx'' then ''typescript''
         else if ext = ''.js'' \<or> ext = ''.jsx'' then ''javascript''
         else if ext = ''.py'' then ''python''
         else ''unknown'')"

text \<open>The row \<open>indexFile\<close> inserts for a chunk and its embedding.\<close>

definition chunk_row_id :: "string \<Rightarrow> code_chunk \<Rightarrow> string" where
  "chunk_row_id relativePath chunk =
     relativePath @ '':'' @ string_of_nat (ck_startLine chunk) @ ''-''
       @ string_of_nat (ck_endLine chunk) @ '':'' @ ck_type chunk"

definition chunk_row_of ::
  "indexer_env \<Rightarrow> string \<Rightarrow> string \<Rightarrow> real \<Rightarrow> code_chunk \<Rightarrow> real list \<Rightarrow> chunk_row" where
  "chunk_row_of env filePath relativePath lastModified chunk embedding =
     \<lparr>cc_id = chunk_row_id relativePath chunk,
      cc_file_path = filePath,
      cc_relative_path = relativePath,
      cc_content = ck_code chunk,
      cc_start_line = ck_startLine chunk,
      cc_end_line = ck_endLine chunk,
      cc_chunk_type = ck_type chunk,
      cc_chunk_name = or_null (ck_name chunk),
      cc_language = ck_language chunk,
      cc_embedding = map (ix_float32 env) embedding,
      cc_last_modified = lastModified,
      cc_created_at = ix_unixepoch env\<rparr>"

text \<open>
  The body of the loop over the chunks: embed the chunk, then INSERT its row. \<open>id\<close> is the
  primary key, so the INSERT of an id the table already holds throws. The \<open>catch\<close> of the
  loop body logs either error and the loop goes on with the next chunk. (The 50 ms pause
  after an insert on the API backend changes no state; it is a point where other calls can
  run, and appears as such in \<open>resume\<close> below.)
\<close>

definition index_chunk ::
  "indexer_env \<Rightarrow> string \<Rightarrow> string \<Rightarrow> real \<Rightarrow> code_chunk \<Rightarrow> indexer_state \<Rightarrow> indexer_state" where
  "index_chunk env filePath relativePath lastModified chunk st =
     (let st1 = emit (EvEmbed (ck_code chunk)) st
      in case ix_generateEmbedding env (ck_code chunk) of
           Inl error \<Rightarrow> st1
         | Inr embedding \<Rightarrow>
             (let row = chunk_row_of env filePath relativePath lastModified chunk embedding;
                  st2 = emit (EvInsert (cc_id row)) st1
              in if cc_id row \<in> set (map cc_id (code_chunks st2)) then st2
                 else st2\<lparr>code_chunks := code_chunks st2 @ [row]\<rparr>))"

text \<open>
  \<open>indexFile\<close>. Its outer \<open>catch\<close> logs whatever is thrown, so the call always returns; the
  result is the state it leaves. \<open>LIMIT 1\<close> without an order is read as the first row of the
  file in table order. The statements on the database are taken to run, but for the
  conflict of a primary key.
\<close>

definition indexFile :: "indexer_env \<Rightarrow> indexer_state \<Rightarrow> string \<Rightarrow> indexer_state" where
  "indexFile env st filePath =
     (case shouldIndexFile env filePath of
        Inl error \<Rightarrow> st
      | Inr should \<Rightarrow>
          if \<not> should then st
          else
            (let st1 = emit (EvStat filePath) st
             in case ix_stat env filePath of
                  Inl error \<Rightarrow> st1
                | Inr lastModified \<Rightarrow>
                    (let relativePath = ix_relative env (ix_projectRoot env) filePath;
                         existing = find (\<lambda>r. cc_file_path r = filePath) (code_chunks st1)
                     in if (case existing of
                              None \<Rightarrow> False
                            | Some r \<Rightarrow> cc_last_modified r \<ge> lastModified)
                        then st1
                        else
                          (let st2 = emit (EvReadFile filePath) st1
                           in case ix_readFile env filePath of
                                Inl error \<Rightarrow> st2
                              | Inr content \<Rightarrow>
                                  (let language = getLanguage env filePath
                                   in if language = ''unknown'' then st2
                                      else
                                        (let st3 = (emit (EvDelete filePath) st2)
                                               \<lparr>code_chunks :=
                                                  filter (\<lambda>r. cc_file_path r \<noteq> filePath)
                                                    (code_chunks st2)\<rparr>;
                                             st4 = emit (EvChunkCode content language) st3
                                         in case ix_chunkCode env content language of
                                              Inl error \<Rightarrow> st4
                                            | Inr chunks \<Rightarrow>
                                                fold (index_chunk env filePath relativePath
                                                        lastModified) chunks st4))))))"

text \<open>
  The chunks of a list for which the loop inserts a row: those whose embedding succeeds and
  whose row id the table does not hold when the loop reaches them. \<open>ids\<close> are the ids the
  table holds when the loop starts.
\<close>

fun stored_chunks :: "indexer_env \<Rightarrow> string \<Rightarrow> string set \<Rightarrow> code_chunk list \<Rightarrow> code_chunk list" where
  "stored_chunks env relativePath ids [] = []"
| "stored_chunks env relativePath ids (chunk # chunks) =
     (if isl (ix_generateEmbedding env (ck_code chunk)) \<or> chunk_row_id relativePath chunk \<in> ids
      then stored_chunks env relativePath ids chunks
      else chunk # stored_chunks env relativePath (insert (chunk_row_id relativePath chunk) ids)
                     chunks)"

text \<open>
  \<open>getStats\<close> of the indexer. The row it selects has the columns \<open>total_files\<close>,
  \<open>total_chunks\<close>, \<open>last_indexed\<close> and \<open>index_duration\<close>; the code reads the properties
  \<open>totalFiles\<close>, \<open>lastIndexed\<close> and \<open>indexDuration\<close> of that row, each under \<open>|| 0\<close>.
  \<open>row_property\<close> is the property lookup on the row object, \<open>or_zero\<close> is \<open>x || 0\<close>.
\<close>

definition row_property :: "index_stats_row \<Rightarrow> string \<Rightarrow> int option" where
  "row_property r name =
     map_of [(''total_files'', total_files r), (''total_chunks'', total_chunks r),
             (''last_indexed'', last_indexed r), (''index_duration'', index_duration r)] name"

definition or_zero :: "int option \<Rightarrow> int" where
  "or_zero x = (case x of None \<Rightarrow> 0 | Some v \<Rightarrow> v)"

definition indexer_getStats :: "indexer_state \<Rightarrow> index_stats" where
  "indexer_getStats st =
     (let result = index_stats_table st;
          chunkCount = int (length (code_chunks st))
      in \<lparr>totalFiles = or_zero (row_property result ''totalFiles''),
          totalChunks = chunkCount,
          lastIndexed = or_zero (row_property result ''lastIndexed''),
          indexDuration = or_zero (row_property result ''indexDuration'')\<rparr>)"

text \<open>The batches of ten files that \<open>indexCodebase\<close> cuts the list of files into.\<close>

function batches_of_ten :: "'a list \<Rightarrow> 'a list list" where
  "batches_of_ten files =
     (if files = [] then [] else take 10 files # batches_of_ten (drop 10 files))"
  by pat_completeness auto
termination
  by (relation "measure length") auto

declare batches_of_ten.simps [simp del]

text \<open>
  One call of \<open>indexFile\<close> as the runtime runs it: in pieces, each from one \<open>await\<close> to the
  next. A task records the \<open>await\<close> a call is suspended at: the \<open>stat\<close>, the \<open>readFile\<close>, the
  embedding of the first of the chunks still to do, or the 50 ms pause that follows an
  INSERT on the API backend. \<open>start_task\<close> is the piece that runs when the call is made,
  \<open>resume\<close> the piece that runs when the awaited result arrives.
\<close>

datatype file_task =
    AwaitStat string
  | AwaitRead string real
  | AwaitEmbed string real "code_chunk list"
  | AwaitPause string real "code_chunk list"
  | Completed

definition start_task :: "indexer_env \<Rightarrow> string \<Rightarrow> indexer_state \<Rightarrow> file_task \<times> indexer_state" where
  "start_task env filePath st =
     (case shouldIndexFile env filePath of
        Inl error \<Rightarrow> (Completed, st)
      | Inr should \<Rightarrow>
          if \<not> should then (Completed, st)
          else (AwaitStat filePath, emit (EvStat filePath) st))"

definition next_chunk ::
  "string \<Rightarrow> real \<Rightarrow> code_chunk list \<Rightarrow> indexer_state \<Rightarrow> file_task \<times> indexer_state" where
  "next_chunk filePath lastModified chunks st =
     (case chunks of
        [] \<Rightarrow> (Completed, st)
      | chunk # rest \<Rightarrow>
          (AwaitEmbed filePath lastModified chunks, emit (EvEmbed (ck_code chunk)) st))"

fun resume :: "indexer_env \<Rightarrow> file_task \<Rightarrow> indexer_state \<Rightarrow> file_task \<times> indexer_state" where
  "resume env (AwaitStat filePath) st =
     (case ix_stat env filePath of
        Inl error \<Rightarrow> (Completed, st)
      | Inr lastModified \<Rightarrow>
          (let existing = find (\<lambda>r. cc_file_path r = filePath) (code_chunks st)
           in if (case existing of
                    None \<Rightarrow> False
                  | Some r \<Rightarrow> cc_last_modified r \<ge> lastModified)
              then (Completed, st)
              else (AwaitRead filePath lastModified, emit (EvReadFile filePath) st)))"
| "resume env (AwaitRead filePath lastModified) st =
     (case ix_readFile env filePath of
        Inl error \<Rightarrow> (Completed, st)
      | Inr content \<Rightarrow>
          (let language = getLanguage env filePath
           in if language = ''unknown'' then (Completed, st)
              else
                (let st3 = (emit (EvDelete filePath) st)
                       \<lparr>code_chunks :=
                          filter (\<lambda>r. cc_file_path r \<noteq> filePath) (code_chunks st)\<rparr>;
                     st4 = emit (EvChunkCode content language) st3
                 in case ix_chunkCode env content language of
                      Inl error \<Rightarrow> (Completed, st4)
                    | Inr chunks \<Rightarrow> next_chunk filePath lastModified chunks st4)))"
| "resume env (AwaitEmbed filePath lastModified []) st = (Completed, st)"
| "resume env (AwaitEmbed filePath lastModified (chunk # rest)) st =
     (case ix_generateEmbedding env (ck_code chunk) of
        Inl error \<Rightarrow> next_chunk filePath lastModified rest st
      | Inr embedding \<Rightarrow>
          (let row = chunk_row_of env filePath (ix_relative env (ix_projectRoot env) filePath)
                       lastModified chunk embedding;
               st2 = emit (EvInsert (cc_id row)) st
           in if cc_id row \<in> set (map cc_id (code_chunks st2))
              then next_chunk filePath lastModified rest st2
              else if ix_apiBackend env
              then (AwaitPause filePath lastModified rest,
                    st2\<lparr>code_chunks := code_chunks st2 @ [row]\<rparr>)
              else next_chunk filePath lastModified rest
                     (st2\<lparr>code_chunks := code_chunks st2 @ [row]\<rparr>)))"
| "resume env (AwaitPause filePath lastModified rest) st =
     next_chunk filePath lastModified rest st"
| "resume env Completed st = (Completed, st)"

text \<open>A task run to its end with nothing in between.\<close>

fun task_phase :: "file_task \<Rightarrow> nat" where
  "task_phase (AwaitStat f) = 3"
| "task_phase (AwaitRead f m) = 2"
| "task_phase (AwaitEmbed f m chunks) = 1"
| "task_phase (AwaitPause f m chunks) = 1"
| "task_phase Completed = 0"

fun task_steps :: "file_task \<Rightarrow> nat" where
  "task_steps (AwaitEmbed f m chunks) = 2 * length chunks"
| "task_steps (AwaitPause f m chunks) = 2 * length chunks + 1"
| "task_steps task = 0"

function finish_task :: "indexer_env \<Rightarrow> file_task \<Rightarrow> indexer_state \<Rightarrow> indexer_state" where
  "finish_task env task st =
     (if task = Completed then st
      else (case resume env task st of (task', st') \<Rightarrow> finish_task env task' st'))"
  by pat_completeness auto
termination
  apply (relation "measures [\<lambda>(env, task, st). task_phase task, \<lambda>(env, task, st). task_steps task]")
   apply simp
  subgoal for env task st
    by (cases "(env, task, st)" rule: resume.cases)
       (auto simp add: next_chunk_def Let_def split: sum.splits list.splits if_splits option.splits)
  done

declare finish_task.simps [simp del]

text \<open>
  \<open>Promise.all(batch.map(file => this.indexFile(file)))\<close>: every call is started, in the
  order of the batch, and runs to its first \<open>await\<close>; then the runtime resumes the waiting
  calls one piece at a time, in an order of its own, until all have returned. The order is
  the list \<open>schedule\<close> of positions in the batch; the calls that a schedule leaves
  unfinished are run to their end in the order of the batch.
\<close>

fun run_schedule ::
  "indexer_env \<Rightarrow> nat list \<Rightarrow> file_task list \<Rightarrow> indexer_state
     \<Rightarrow> file_task list \<times> indexer_state" where
  "run_schedule env [] tasks st = (tasks, st)"
| "run_schedule env (i # schedule) tasks st =
     (if i < length tasks
      then (case resume env (tasks ! i) st of
              (task, st') \<Rightarrow> run_schedule env schedule (tasks[i := task]) st')
      else run_schedule env schedule tasks st)"

definition start_batch ::
  "indexer_env \<Rightarrow> string list \<Rightarrow> indexer_state \<Rightarrow> file_task list \<times> indexer_state" where
  "start_batch env batch st =
     fold (\<lambda>file (tasks, s). case start_task env file s of (task, s') \<Rightarrow> (tasks @ [task], s'))
       batch ([], st)"

definition index_batch ::
  "indexer_env \<Rightarrow> nat list \<Rightarrow> string list \<Rightarrow> indexer_state \<Rightarrow> indexer_state" where
  "index_batch env schedule batch st =
     (case start_batch env batch st of
        (tasks, st1) \<Rightarrow>
          (case run_schedule env schedule tasks st1 of
             (tasks', st2) \<Rightarrow> fold (finish_task env) tasks' st2))"

text \<open>
  \<open>indexCodebase\<close>, in the three parts between which other calls can run. A function body
  runs without interruption up to its next \<open>await\<close>, so the test of \<open>isIndexing\<close> and the
  assignment that follows it are one step (\<open>indexCodebase_enter\<close>). The work of the pass
  (\<open>indexCodebase_work\<close>) lists the files, indexes them batch by batch and writes the
  statistics. The \<open>finally\<close> block clears the flag (\<open>indexCodebase_finally\<close>), whether the
  work returned or threw.
\<close>

datatype pass_entry = Rejected index_stats | Entered indexer_state

definition indexCodebase_enter :: "indexer_state \<Rightarrow> pass_entry" where
  "indexCodebase_enter st =
     (if isIndexing st then Rejected (indexer_getStats st)
      else Entered (st\<lparr>isIndexing := True\<rparr>))"

definition write_stats :: "int \<Rightarrow> int \<Rightarrow> int \<Rightarrow> int \<Rightarrow> indexer_state \<Rightarrow> indexer_state" where
  "write_stats files chunks now duration st =
     st\<lparr>index_stats_table := \<lparr>total_files = files, total_chunks = chunks,
                               last_indexed = now, index_duration = duration\<rparr>\<rparr>"

definition indexCodebase_work ::
  "indexer_env \<Rightarrow> indexer_state \<Rightarrow> (js_error + index_stats) \<times> indexer_state" where
  "indexCodebase_work env st =
     (case ix_date_now env of
        (startTime, endTime, updateTime) \<Rightarrow>
          (let st1 = emit EvGlob st
           in case ix_glob env of
                Inl error \<Rightarrow> (Inl error, st1)
              | Inr files \<Rightarrow>
                  (let st2 = fold (\<lambda>(k, batch) s. index_batch env (ix_schedule env k) batch s)
                               (enumerate 0 (batches_of_ten files)) st1;
                       duration = endTime - startTime;
                       stats = indexer_getStats st2;
                       st3 = write_stats (int (length files)) (totalChunks stats) updateTime
                               duration st2
                   in (Inr (stats\<lparr>totalFiles := int (length files), indexDuration := duration\<rparr>),
                       st3))))"

definition indexCodebase_finally :: "indexer_state \<Rightarrow> indexer_state" where
  "indexCodebase_finally st = st\<lparr>isIndexing := False\<rparr>"

definition indexCodebase ::
  "indexer_env \<Rightarrow> indexer_state \<Rightarrow> (js_error + index_stats) \<times> indexer_state" where
  "indexCodebase env st =
     (case indexCodebase_enter st of
        Rejected stats \<Rightarrow> (Inr stats, st)
      | Entered st1 \<Rightarrow>
          (case indexCodebase_work env st1 of
             (result, st2) \<Rightarrow> (result, indexCodebase_finally st2)))"

text \<open>
  The indexer under interleaved calls. A configuration is the state of the service and the
  number of calls of \<open>indexCodebase\<close> that have entered a pass and not yet reached their
  \<open>finally\<close>. A step is a call of \<open>indexCodebase\<close> arriving (rejected or entered), a call
  of \<open>indexFile\<close> (by a pass or by the watcher's queue) starting or running from one
  \<open>await\<close> to the next, the statistics being written, or a pass reaching its \<open>finally\<close>.
\<close>

inductive step :: "indexer_env \<Rightarrow> indexer_state \<times> nat \<Rightarrow> indexer_state \<times> nat \<Rightarrow> bool"
  for env :: indexer_env where
  call_rejected: "indexCodebase_enter st = Rejected stats \<Longrightarrow> step env (st, n) (st, n)"
| call_entered: "indexCodebase_enter st = Entered st' \<Longrightarrow> step env (st, n) (st', Suc n)"
| file_started: "start_task env file st = (task, st') \<Longrightarrow> step env (st, n) (st', n)"
| file_resumed: "resume env task st = (task', st') \<Longrightarrow> step env (st, n) (st', n)"
| stats_written: "step env (st, n) (write_stats files chunks now duration st, n)"
| pass_finished: "0 < n \<Longrightarrow> step env (st, n) (indexCodebase_finally st, n - 1)"

inductive reachable :: "indexer_env \<Rightarrow> indexer_state \<times> nat \<Rightarrow> bool"
  for env :: indexer_env where
  start: "\<not> isIndexing st \<Longrightarrow> reachable env (st, 0)"
| after: "reachable env c \<Longrightarrow> step env c c' \<Longrightarrow> reachable env c'"




definition indexer_cosineSimilarity ::
  "rounding \<Rightarrow> real list \<Rightarrow> real list \<Rightarrow> js_error + js_number" where
  "indexer_cosineSimilarity fl a b = cosine_with fl ''Vectors must have same length'' a b"








section \<open>Concrete inputs\<close>

text \<open>
  Small environments and states on which the theorems below are run: a collection whose
  every call fails, and one that answers each search with two scored points.
\<close>

definition env_qdrant_down :: "unit retrieval_env" where
  "env_qdrant_down = \<lparr>generateEmbedding = (\<lambda>t. Inr [1, 0]),
           sqlite_fault = None,
           current_timestamp = 100,
           date_now = 100000,
           client_upsert = (\<lambda>q p. Inl \<lparr>message = ''ECONNREFUSED'', code = None\<rparr>),
           client_search = (\<lambda>q v k f. Inl \<lparr>message = ''ECONNREFUSED'', code = None\<rparr>)\<rparr>"

definition env_embedding_down :: "unit retrieval_env" where
  "env_embedding_down =
     env_qdrant_down\<lparr>generateEmbedding :=
       (\<lambda>t. Inl (Error ''OPENROUTER_API_KEY must be configured for API embedding backend''))\<rparr>"

definition example_reverse :: example_input where
  "example_reverse = \<lparr>ex_task = ''reverse a string'', ex_code = ''s.reverse()'', ex_language = ''x'',
          ex_framework = None, ex_tool = ''gen'', ex_success = True,
          ex_errorMessage = None, ex_errorType = None\<rparr>"

definition empty_state :: "unit retrieval_state" where
  "empty_state = \<lparr>code_examples = [], sqlite_sequence = 0, qdrant = ()\<rparr>"

definition cfg_default :: retrieval_defaults where
  "cfg_default = \<lparr>defaultTopK = 3, defaultThreshold = 6 / 10\<rparr>"

definition opts_one :: retrieve_options where
  "opts_one = \<lparr>opt_tool = None, opt_language = Some ''x'', opt_topK = Some 1, opt_threshold = None\<rparr>"

definition payload_of :: "string \<Rightarrow> point_payload" where
  "payload_of t = \<lparr>p_task = t, p_code = ''code'', p_chunkType = ''full_file'', p_language = ''x'',
      p_framework = None, p_filePath = None, p_imports = [], p_exports = [], p_patterns = [],
      p_success = True, p_tool = ''gen'', p_timestamp = 100000, p_codeHash = []\<rparr>"

definition env_two_hits :: "unit retrieval_env" where
  "env_two_hits = \<lparr>generateEmbedding = (\<lambda>t. Inr [1, 0]),
           sqlite_fault = None,
           current_timestamp = 100,
           date_now = 100000,
           client_upsert = (\<lambda>q p. Inr q),
           client_search = (\<lambda>q v k f.
              Inr [\<lparr>sr_id = 1, sr_score = 9 / 10, sr_payload = payload_of ''a''\<rparr>,
                   \<lparr>sr_id = 2, sr_score = 7 / 10, sr_payload = payload_of ''b''\<rparr>])\<rparr>"

text \<open>
  An embedding service with the default settings and a key, and networks that answer the
  first request with HTTP 429, with HTTP 503, with a refused connection (as the runtime
  reports it, by \<open>code\<close>), or every request with HTTP 401.
\<close>

definition svc_default :: embedding_service where
  "svc_default = \<lparr>apiKey = ''sk-test'', baseURL = ''https://openrouter.ai/api/v1'',
      defaultModel = ''openai/text-embedding-3-small'', maxRetries = 3\<rparr>"

definition ok_response :: fetch_outcome where
  "ok_response = Response 200 [] (Inr \<lparr>data_embedding = [1, 0], data_total_tokens = Some 2\<rparr>)"

definition net_429_then_ok :: "nat \<Rightarrow> fetch_outcome" where
  "net_429_then_ok i =
     (if i = 0 then Response 429 ''Too Many Requests'' (Inl (Error ''body not read''))
      else ok_response)"

definition net_503_then_ok :: "nat \<Rightarrow> fetch_outcome" where
  "net_503_then_ok i =
     (if i = 0 then Response 503 ''Service Unavailable'' (Inl (Error ''body not read''))
      else ok_response)"

definition net_refused_then_ok :: "nat \<Rightarrow> fetch_outcome" where
  "net_refused_then_ok i =
     (if i = 0
      then FetchRejected \<lparr>message = ''Unable to connect. Is the computer able to access the url?'',
                           code = Some ''ConnectionRefused''\<rparr>
      else ok_response)"

definition net_401 :: "nat \<Rightarrow> fetch_outcome" where
  "net_401 i = Response 401 ''Unauthorized'' (Inl (Error ''body not read''))"

text \<open>
  A project with one TypeScript file of two chunks, an indexer whose collaborators all
  succeed, one whose embedding fails for the second chunk, and an index that already holds
  one row of the file.
\<close>

definition chunk_a :: code_chunk where
  "chunk_a = \<lparr>ck_code = ''a'', ck_startLine = 1, ck_endLine = 2, ck_type = ''function'',
      ck_name = Some ''f'', ck_language = ''typescript''\<rparr>"

definition chunk_b :: code_chunk where
  "chunk_b = \<lparr>ck_code = ''b'', ck_startLine = 3, ck_endLine = 4, ck_type = ''class'',
      ck_name = None, ck_language = ''typescript''\<rparr>"

definition fs_env :: indexer_env where
  "fs_env = \<lparr>ix_projectRoot = ''/p'',
      ix_extname = (\<lambda>f. ''.ts''),
      ix_relative = (\<lambda>root f. drop 3 f),
      ix_ignoreFilter = None,
      ix_stat = (\<lambda>f. Inr 5),
      ix_readFile = (\<lambda>f. Inr ''new''),
      ix_chunkCode = (\<lambda>content language. Inr [chunk_a, chunk_b]),
      ix_generateEmbedding = (\<lambda>t. Inr [1, 0]),
      ix_float32 = (\<lambda>x. x),
      ix_glob = Inr [''/p/a.ts''],
      ix_unixepoch = 0,
      ix_date_now = (0, 1, 1),
      ix_double = round_double,
      ix_apiBackend = True,
      ix_schedule = (\<lambda>k. [])\<rparr>"

definition fs_env_flaky :: indexer_env where
  "fs_env_flaky = fs_env\<lparr>ix_generateEmbedding :=
      (\<lambda>t. if t = ''b'' then Inl (Error ''Embedding API error: 400 - bad request'')
           else Inr [1, 0])\<rparr>"

definition old_row :: "real \<Rightarrow> chunk_row" where
  "old_row m = \<lparr>cc_id = ''a.ts:1-9:function'', cc_file_path = ''/p/a.ts'',
      cc_relative_path = ''a.ts'', cc_content = ''old'', cc_start_line = 1, cc_end_line = 9,
      cc_chunk_type = ''function'', cc_chunk_name = None, cc_language = ''typescript'',
      cc_embedding = [1, 0], cc_last_modified = m, cc_created_at = 0\<rparr>"

definition indexed_state :: "real \<Rightarrow> indexer_state" where
  "indexed_state m = \<lparr>code_chunks = [old_row m],
      index_stats_table = \<lparr>total_files = 1, total_chunks = 1, last_indexed = 7,
                            index_duration = 2\<rparr>,
      isIndexing = False, trace = []\<rparr>"

text \<open>The same index while a pass is in progress.\<close>

definition busy_state :: indexer_state where
  "busy_state = (indexed_state 5)\<lparr>isIndexing := True\<rparr>"




section \<open>Properties of the example ledger\<close>

lemma fromEntries_group_count:
  "fromEntries (group_count key rs) k = count_entry (length (filter (\<lambda>r. key r = k) rs))"
proof (cases "k \<in> set (map key rs)")
  case True
  have d: "distinct (map fst (rev (group_count key rs)))"
    by (simp add: group_count_def rev_map [symmetric] comp_def distinct_rev)
  have "(k, length (filter (\<lambda>r. key r = k) rs)) \<in> set (rev (group_count key rs))"
    using True by (auto simp: group_count_def)
  with d have "map_of (rev (group_count key rs)) k = Some (length (filter (\<lambda>r. key r = k) rs))"
    by (rule map_of_is_SomeI)
  moreover have "filter (\<lambda>r. key r = k) rs \<noteq> []"
    using True by (auto simp: filter_empty_conv)
  ultimately show ?thesis
    by (simp add: fromEntries_def count_entry_def)
next
  case False
  then have "k \<notin> fst ` set (rev (group_count key rs))"
    by (auto simp: group_count_def)
  then have "map_of (rev (group_count key rs)) k = None"
    by (simp add: map_of_eq_None_iff)
  moreover have "filter (\<lambda>r. key r = k) rs = []"
    using False by (auto simp: filter_empty_conv)
  ultimately show ?thesis
    by (simp add: fromEntries_def count_entry_def)
qed

text \<open>
  C10. \<open>getStats\<close> counts successful examples only: \<open>total\<close>, \<open>byTool\<close> and \<open>byLanguage\<close>
  are the counts over the rows with \<open>success = 1\<close>, and deleting every failed row from the
  ledger leaves all of \<open>getStats\<close> unchanged. Failed examples are counted by
  \<open>getErrorStats\<close>, whose total and per-language counts range over the rows with
  \<open>success = 0\<close> and which is unchanged when only those rows are kept.
\<close>

theorem getStats_counts_successes_only:
  "total_count (getStats db) = length (filter (\<lambda>r. row_success r = 1) db)
   \<and> byTool (getStats db) t
       = count_entry (length (filter (\<lambda>r. row_success r = 1 \<and> row_tool r = t) db))
   \<and> byLanguage (getStats db) l
       = count_entry (length (filter (\<lambda>r. row_success r = 1 \<and> row_language r = l) db))
   \<and> getStats (filter (\<lambda>r. row_success r \<noteq> 0) db) = getStats db
   \<and> totalErrors (getErrorStats db) = length (filter (\<lambda>r. row_success r = 0) db)
   \<and> errByLanguage (getErrorStats db) l
       = count_entry (length (filter (\<lambda>r. row_success r = 0 \<and> row_language r = l) db))
   \<and> getErrorStats (filter (\<lambda>r. row_success r = 0) db) = getErrorStats db"
proof -
  have f1: "filter (\<lambda>r. row_success r = 1) (filter (\<lambda>r. row_success r \<noteq> 0) db)
            = filter (\<lambda>r. row_success r = 1) db"
    by (simp add: conj_commute) (metis zero_neq_one)
  have a: "getStats (filter (\<lambda>r. row_success r \<noteq> 0) db) = getStats db"
    by (simp only: getStats_def f1)
  have b: "getErrorStats (filter (\<lambda>r. row_success r = 0) db) = getErrorStats db"
    by (simp add: getErrorStats_def conj_commute cong: conj_cong)
  have c: "\<And>P Q. filter P (filter Q db) = filter (\<lambda>r. Q r \<and> P r) db"
    by (simp add: conj_commute)
  show ?thesis
    by (simp add: a b c) (simp add: getStats_def getErrorStats_def fromEntries_group_count c)
qed


text \<open>
  C1. When the embedding and the INSERT succeed and the upsert of the new point into the
  vector index fails, \<open>storeExample\<close> returns the id of the inserted row and raises
  nothing; the row stays in \<open>code_examples\<close> (the table is the old one with the new row
  appended) and the collection is as it was.
\<close>

theorem storeExample_keeps_row_when_upsert_fails:
  assumes emb: "generateEmbedding env (ex_task example) = Inr embedding"
      and db: "sqlite_fault env = None"
      and qd: "upsertPoint env (qdrant st)
                 (example_point env example (next_rowid st) embedding) = Inl qdrantError"
  shows "\<exists>st' row. storeExample env st example = (Inr (next_rowid st), st')
           \<and> code_examples st' = code_examples st @ [row]
           \<and> row_id row = next_rowid st
           \<and> row_task row = ex_task example
           \<and> row_code row = ex_code example
           \<and> row_embedding row = embedding
           \<and> qdrant st' = qdrant st"
  using emb db qd
  by (simp add: storeExample_def insert_example_def Let_def)

theorem storeExample_keeps_row_witness:
  "generateEmbedding env_qdrant_down (ex_task example_reverse) = Inr [1, 0]
   \<and> sqlite_fault env_qdrant_down = None
   \<and> upsertPoint env_qdrant_down (qdrant empty_state)
         (example_point env_qdrant_down example_reverse (next_rowid empty_state) [1, 0])
       = Inl \<lparr>message = ''ECONNREFUSED'', code = None\<rparr>
   \<and> fst (storeExample env_qdrant_down empty_state example_reverse) = Inr 1
   \<and> map row_id (code_examples (snd (storeExample env_qdrant_down empty_state example_reverse)))
       = [1]"
proof -
  have h1: "generateEmbedding env_qdrant_down (ex_task example_reverse) = Inr [1, 0]"
    by (simp add: env_qdrant_down_def)
  have h2: "sqlite_fault env_qdrant_down = None"
    by (simp add: env_qdrant_down_def)
  have h3: "upsertPoint env_qdrant_down (qdrant empty_state)
              (example_point env_qdrant_down example_reverse (next_rowid empty_state) [1, 0])
            = Inl \<lparr>message = ''ECONNREFUSED'', code = None\<rparr>"
    by (simp add: upsertPoint_def env_qdrant_down_def)
  have n: "next_rowid empty_state = 1" "code_examples empty_state = []"
    by (simp_all add: next_rowid_def empty_state_def)
  from storeExample_keeps_row_when_upsert_fails [OF h1 h2 h3]
  obtain st' row where
    "storeExample env_qdrant_down empty_state example_reverse = (Inr (next_rowid empty_state), st')"
    "code_examples st' = code_examples empty_state @ [row]"
    "row_id row = next_rowid empty_state"
    by blast
  then show ?thesis
    using h1 h2 h3 by (simp add: n)
qed

text \<open>
  C2. \<open>retrieveSimilarExamples\<close> always returns a list and never raises. When the embedding
  of the query fails, or when the vector index is unavailable (every search of the
  collection fails), the list is empty.
\<close>

theorem retrieveSimilarExamples_degrades_to_empty:
  "(\<exists>rs. retrieveSimilarExamples env cfg st task options = Inr rs)
   \<and> ((\<exists>e. generateEmbedding env task = Inl e)
        \<or> (\<forall>v k f. \<exists>e. client_search env (qdrant st) v k f = Inl e)
       \<longrightarrow> retrieveSimilarExamples env cfg st task options = Inr [])"
proof -
  have total: "\<exists>rs. retrieveSimilarExamples env cfg st task options = Inr rs"
    by (simp add: retrieveSimilarExamples_def Let_def split: sum.splits)
  have emb: "retrieveSimilarExamples env cfg st task options = Inr []"
    if "generateEmbedding env task = Inl e" for e
    using that by (simp add: retrieveSimilarExamples_def Let_def)
  have idx: "retrieveSimilarExamples env cfg st task options = Inr []"
    if down: "\<forall>v k f. \<exists>e. client_search env (qdrant st) v k f = Inl e"
  proof -
    have "\<exists>e. searchDense env (qdrant st) v k f = Inl e" for v k f
    proof -
      obtain e where "client_search env (qdrant st) v
          (case k of None \<Rightarrow> 5 | Some k \<Rightarrow> if k = 0 then 5 else k) f = Inl e"
        using down by blast
      then show ?thesis by (simp add: searchDense_def Let_def)
    qed
    then have sd: "\<And>v k f r. searchDense env (qdrant st) v k f \<noteq> Inr r"
      by (metis sum.distinct(1))
    show ?thesis
      by (simp add: retrieveSimilarExamples_def Let_def sd split: sum.splits)
  qed
  from total emb idx show ?thesis by blast
qed

theorem retrieveSimilarExamples_degrades_witness:
  "(\<forall>v k f. \<exists>e. client_search env_qdrant_down (qdrant empty_state) v k f = Inl e)
   \<and> retrieveSimilarExamples env_qdrant_down cfg_default empty_state ''reverse a string'' opts_one
       = Inr []
   \<and> (\<exists>e. generateEmbedding env_embedding_down ''reverse a string'' = Inl e)
   \<and> retrieveSimilarExamples env_embedding_down cfg_default empty_state ''reverse a string''
         opts_one
       = Inr []"
proof -
  have down: "\<forall>v k f. \<exists>e. client_search env_qdrant_down (qdrant empty_state) v k f = Inl e"
    by (simp add: env_qdrant_down_def)
  have emb: "\<exists>e. generateEmbedding env_embedding_down ''reverse a string'' = Inl e"
    by (simp add: env_embedding_down_def)
  from down
    retrieveSimilarExamples_degrades_to_empty [of env_qdrant_down cfg_default empty_state
      "''reverse a string''" opts_one]
  have a: "retrieveSimilarExamples env_qdrant_down cfg_default empty_state ''reverse a string''
             opts_one = Inr []"
    by blast
  from emb
    retrieveSimilarExamples_degrades_to_empty [of env_embedding_down cfg_default empty_state
      "''reverse a string''" opts_one]
  have b: "retrieveSimilarExamples env_embedding_down cfg_default empty_state
             ''reverse a string'' opts_one = Inr []"
    by blast
  from down emb a b show ?thesis by blast
qed

text \<open>
  C5. For thresholds \<open>t1 < t2\<close> and everything else equal, the results of
  \<open>retrieveSimilarExamples\<close> at \<open>t2\<close> are a subsequence, hence a subset, of the results at
  \<open>t1\<close>, and every result has a similarity of at least the threshold that was asked for.
\<close>

theorem retrieve_threshold_monotone:
  assumes "t1 < t2"
  shows "\<exists>r1 r2.
           retrieveSimilarExamples env cfg st Q (options\<lparr>opt_threshold := Some t1\<rparr>) = Inr r1
         \<and> retrieveSimilarExamples env cfg st Q (options\<lparr>opt_threshold := Some t2\<rparr>) = Inr r2
         \<and> subseq r2 r1 \<and> set r2 \<subseteq> set r1
         \<and> (\<forall>r \<in> set r1. t1 \<le> rr_similarity r)
         \<and> (\<forall>r \<in> set r2. t2 \<le> rr_similarity r)"
proof -
  have sub: "subseq (filter (\<lambda>r. t2 \<le> sr_score r) xs) (filter (\<lambda>r. t1 \<le> sr_score r) xs)"
    for xs :: "search_result list"
  proof -
    have "filter (\<lambda>r. t2 \<le> sr_score r) xs
          = filter (\<lambda>r. t2 \<le> sr_score r) (filter (\<lambda>r. t1 \<le> sr_score r) xs)"
      using assms by (auto intro: filter_cong)
    then show ?thesis by (metis subseq_filter_left)
  qed
  show ?thesis
    using assms sub
    by (auto simp add: retrieveSimilarExamples_def Let_def to_retrieval_result_def
          subseq_map split: sum.splits intro!: subseq_map)
qed

theorem retrieve_threshold_monotone_witness:
  "(6 / 10 :: real) < 8 / 10
   \<and> map rr_similarity (projr (retrieveSimilarExamples env_two_hits cfg_default empty_state ''q'' (opts_one\<lparr>opt_threshold := Some (6 / 10)\<rparr>)))
       = [9 / 10, 7 / 10]
   \<and> map rr_similarity (projr (retrieveSimilarExamples env_two_hits cfg_default empty_state ''q'' (opts_one\<lparr>opt_threshold := Some (8 / 10)\<rparr>)))
       = [9 / 10]"
  using retrieve_threshold_monotone [of "6 / 10" "8 / 10" env_two_hits cfg_default empty_state "''q''" opts_one]
  by (simp add: retrieveSimilarExamples_def searchDense_def env_two_hits_def opts_one_def cfg_default_def
        to_retrieval_result_def Let_def)


section \<open>Properties of the embedding service\<close>

lemma retry_exhausted:
  assumes "\<And>j. \<exists>e. fn j = Inl e \<and> isRetryable e"
  shows "retryWithBackoff fn i (int n) d slept
         = Some (fn (i + n), slept @ map (\<lambda>k. d * 2 ^ k) [0..<n], Suc (i + n))"
proof (induction n arbitrary: i d slept)
  case 0
  obtain e where "fn i = Inl e" using assms by blast
  then show ?case by (simp add: retryWithBackoff.simps [of fn i])
next
  case (Suc n)
  obtain e where e: "fn i = Inl e" "isRetryable e" using assms by blast
  have m: "map (\<lambda>k. d * 2 ^ k) [0..<Suc n] = d # map (\<lambda>k. (d * 2) * 2 ^ k) [0..<n]"
    by (simp add: upt_rec [of 0] map_Suc_upt [symmetric] del: upt_Suc)
  have "retryWithBackoff fn i (int (Suc n)) d slept
        = retryWithBackoff fn (Suc i) (int n) (d * 2) (slept @ [d])"
    using e by (subst retryWithBackoff.simps) simp
  then show ?case
    by (simp only: Suc.IH m) simp
qed

lemma retry_not_retryable:
  assumes "fn i = Inl e" "\<not> isRetryable e"
  shows "retryWithBackoff fn i r d slept = Some (Inl e, slept, Suc i)"
  using assms by (subst retryWithBackoff.simps) simp

lemma svc_default_fields:
  "apiKey svc_default \<noteq> []" "maxRetries svc_default = 3"
  "baseURL svc_default = ''https://openrouter.ai/api/v1''"
  by (simp_all add: svc_default_def)

lemma string_of_status:
  "string_of_nat 401 = ''401''" "string_of_nat 429 = ''429''" "string_of_nat 503 = ''503''"
  by (simp_all add: string_of_nat.simps digit_char_def)

text \<open>
  A server error is retried: after HTTP 503 the request is sent again, 1000 ms later, and
  the second answer is returned.
\<close>

lemma server_error_is_retried:
  "\<exists>r. generateAPIEmbedding fl svc_default net_503_then_ok None = Some (Inr r, [1000], 2)"
proof -
  have a0: "api_attempt fl svc_default m (net_503_then_ok 0)
            = Inl (Error ''Embedding API error: 503 - Service Unavailable'')" for m
    by (simp add: api_attempt_def net_503_then_ok_def response_ok_def rethrow_specific_def
          Error_def string_of_status)
  have r: "isRetryable (Error ''Embedding API error: 503 - Service Unavailable'')"
    by (simp add: isRetryable_def Error_def)
  have "\<exists>r. api_attempt fl svc_default m (net_503_then_ok (Suc 0)) = Inr r" for m
    by (simp add: api_attempt_def net_503_then_ok_def ok_response_def response_ok_def)
  then obtain r where r1:
    "api_attempt fl svc_default (defaultModel svc_default) (net_503_then_ok (Suc 0)) = Inr r"
    by blast
  show ?thesis
    by (simp add: generateAPIEmbedding_def retryWithBackoff.simps [of _ 0]
          retryWithBackoff.simps [of _ "Suc 0"] a0 r r1 svc_default_fields truthy_def)
qed

text \<open>
  A server error that persists is tried \<open>maxRetries + 1\<close> times, with the delays 1000,
  2000, 4000, ... between the attempts, and then reaches the caller.
\<close>

lemma server_error_exhausts_retries:
  assumes "apiKey svc \<noteq> []" "maxRetries svc = int n"
  shows "generateAPIEmbedding fl svc (\<lambda>i. Response 503 ''Service Unavailable'' body) None
         = Some (Inl (Error ''Embedding API error: 503 - Service Unavailable''),
                 map (\<lambda>k. 1000 * 2 ^ k) [0..<n], Suc n)"
proof -
  let ?fn = "\<lambda>i::nat. api_attempt fl svc (defaultModel svc)
                        (Response 503 ''Service Unavailable'' body)"
  have a: "?fn j = Inl (Error ''Embedding API error: 503 - Service Unavailable'')" for j
    by (simp add: api_attempt_def response_ok_def rethrow_specific_def Error_def
          string_of_status)
  have r: "isRetryable (Error ''Embedding API error: 503 - Service Unavailable'')"
    by (simp add: isRetryable_def Error_def)
  have "retryWithBackoff ?fn 0 (int n) 1000 []
        = Some (?fn (0 + n), [] @ map (\<lambda>k. 1000 * 2 ^ k) [0..<n], Suc (0 + n))"
    by (rule retry_exhausted) (simp add: a r)
  then show ?thesis
    using assms by (simp add: generateAPIEmbedding_def truthy_def a)
qed

text \<open>An HTTP 401 fails on the first attempt.\<close>

lemma unauthorized_fails_at_once:
  "generateAPIEmbedding fl svc_default net_401 None
     = Some (Inl (Error ''Invalid OpenRouter API key. Please check your OPENROUTER_API_KEY configuration.''),
             [], 1)"
proof -
  have a: "api_attempt fl svc_default m (net_401 0)
     = Inl (Error ''Invalid OpenRouter API key. Please check your OPENROUTER_API_KEY configuration.'')"
    for m
    by (simp add: api_attempt_def net_401_def response_ok_def rethrow_specific_def Error_def
          string_of_status)
  have nr: "\<not> isRetryable
     (Error ''Invalid OpenRouter API key. Please check your OPENROUTER_API_KEY configuration.'')"
    by (simp add: isRetryable_def Error_def)
  show ?thesis
    by (simp add: generateAPIEmbedding_def retryWithBackoff.simps [of _ 0] a nr
          svc_default_fields truthy_def)
qed

text \<open>
  A refused connection that the runtime reports through \<open>error.code\<close> is replaced by the
  ``Cannot connect'' error, whose message has none of the markers \<open>retryWithBackoff\<close> looks
  for (with the default base URL), so it is not retried either.
\<close>

lemma connection_refused_is_not_retried:
  "generateAPIEmbedding fl svc_default net_refused_then_ok None
     = Some (Inl (Error (''Cannot connect to OpenRouter API at https://openrouter.ai/api/v1''
                  @ ''/embeddings. Please check your network connection and API configuration.'')),
             [], 1)"
proof -
  have a: "api_attempt fl svc_default m (net_refused_then_ok 0)
     = Inl (Error (''Cannot connect to OpenRouter API at https://openrouter.ai/api/v1''
              @ ''/embeddings. Please check your network connection and API configuration.''))"
    for m
    by (simp add: api_attempt_def net_refused_then_ok_def rethrow_specific_def
          svc_default_fields)
  have nr: "\<not> isRetryable
     (Error (''Cannot connect to OpenRouter API at https://openrouter.ai/api/v1''
              @ ''/embeddings. Please check your network connection and API configuration.''))"
    by (simp add: isRetryable_def Error_def)
  show ?thesis
    by (simp add: generateAPIEmbedding_def retryWithBackoff.simps [of _ 0] a nr
          svc_default_fields truthy_def del: append.simps)
qed

text \<open>
  C7. The claim: a retryable failure of the embedding request (connection refused, HTTP
  429, HTTP 5xx) is retried up to the configured number of attempts with a delay that
  doubles, a failure that is not retryable fails at once, and after the last attempt the
  error reaches the caller. On the code this fails for HTTP 429. The request function
  replaces the error of a 429 response by ``OpenRouter API rate limit exceeded. Please try
  again later.'' before \<open>retryWithBackoff\<close> sees it, and that message contains none of the
  markers \<open>fetch failed\<close>, \<open>ECONNREFUSED\<close>, \<open>429\<close>, \<open>5\<close>. The theorem runs
  \<open>generateAPIEmbedding\<close> with three retries configured on a network whose first answer is
  HTTP 429 and whose every later answer is a valid embedding: the call fails after one
  request, without having waited.
\<close>

theorem rate_limit_is_not_retried:
  "generateAPIEmbedding fl svc_default net_429_then_ok None
     = Some (Inl (Error ''OpenRouter API rate limit exceeded. Please try again later.''), [], 1)"
proof -
  have a: "api_attempt fl svc_default m (net_429_then_ok 0)
           = Inl (Error ''OpenRouter API rate limit exceeded. Please try again later.'')" for m
    by (simp add: api_attempt_def net_429_then_ok_def response_ok_def rethrow_specific_def
          Error_def string_of_status)
  have nr: "\<not> isRetryable (Error ''OpenRouter API rate limit exceeded. Please try again later.'')"
    by (simp add: isRetryable_def Error_def)
  show ?thesis
    by (simp add: generateAPIEmbedding_def retryWithBackoff.simps [of _ 0] a nr
          svc_default_fields truthy_def)
qed

section \<open>Binary64 rounding\<close>

lemma round_half_even_near: "\<bar>of_int (round_half_even z) - z\<bar> \<le> 1 / 2"
  unfolding round_half_even_def Let_def
  by (auto simp add: abs_le_iff)

lemma round_half_even_bound:
  assumes "\<bar>z\<bar> \<le> of_int N"
  shows "\<bar>round_half_even z\<bar> \<le> N"
proof -
  have f1: "\<lfloor>z\<rfloor> \<le> N" using assms by (simp add: floor_le_iff abs_le_iff) 
  have f2: "- N \<le> \<lfloor>z\<rfloor>" using assms by (simp add: le_floor_iff abs_le_iff)
  have eqN: "z = of_int N" if "\<lfloor>z\<rfloor> = N"
  proof -
    have "of_int N \<le> z" using that by (metis of_int_floor_le)
    moreover have "z \<le> of_int N" using assms by (simp add: abs_le_iff)
    ultimately show ?thesis by simp
  qed
  show ?thesis
  proof (cases "\<lfloor>z\<rfloor> = N")
    case True
    then have "z = of_int N" by (rule eqN)
    then have "round_half_even z = N" by (simp add: round_half_even_def)
    with f2 True show ?thesis by simp
  next
    case False
    with f1 have "\<lfloor>z\<rfloor> + 1 \<le> N" by simp
    moreover have "\<lfloor>z\<rfloor> \<le> round_half_even z" "round_half_even z \<le> \<lfloor>z\<rfloor> + 1"
      by (simp_all add: round_half_even_def Let_def)
    ultimately show ?thesis using f2 by simp
  qed
qed

lemma round_double_zero: "round_double 0 = Num 0"
  by (simp add: round_double_def)

lemma round_double_normal:
  assumes lo: "2 powr (- 1022) \<le> \<bar>x\<bar>" and hi: "\<bar>x\<bar> \<le> 2 powr 1023"
  shows "\<exists>y. round_double x = Num y \<and> \<bar>y - x\<bar> \<le> 2 powr (- 53) * \<bar>x\<bar>"
proof -
  have x0: "x \<noteq> 0" using lo by (auto simp: not_le [symmetric])
  define e where "e = \<lfloor>log 2 \<bar>x\<bar>\<rfloor>"
  define ulp :: real where "ulp = 2 powr (of_int e - 52)"
  define y where "y = of_int (round_half_even (x / ulp)) * ulp"
  have xpos: "0 < \<bar>x\<bar>" using x0 by simp
  have "log 2 (2 powr (- 1022)) \<le> log 2 \<bar>x\<bar>"
    using lo xpos by (subst log_le_cancel_iff) simp_all
  then have "- 1022 \<le> log 2 \<bar>x\<bar>" by simp
  then have e_ge: "- 1022 \<le> e" unfolding e_def by (simp add: le_floor_iff)
  have "of_int e \<le> log 2 \<bar>x\<bar>" unfolding e_def by simp
  then have "2 powr (of_int e) \<le> 2 powr (log 2 \<bar>x\<bar>)"
    by (subst powr_le_cancel_iff) simp_all
  then have pe: "2 powr (of_int e) \<le> \<bar>x\<bar>" using xpos by simp
  have ulp_pos: "0 < ulp" by (simp add: ulp_def)
  have ulp_half: "ulp / 2 = 2 powr (- 53) * 2 powr (of_int e)"
  proof -
    have "ulp = 2 powr (of_int e) * 2 powr (- 52)"
      unfolding ulp_def by (simp add: powr_add [symmetric])
    moreover have "(2::real) powr (- 52) / 2 = 2 powr (- 53)"
      by (simp add: powr_minus powr_numeral divide_simps)
    ultimately show ?thesis by simp
  qed
  have "\<bar>y - x\<bar> = \<bar>of_int (round_half_even (x / ulp)) - x / ulp\<bar> * ulp"
  proof -
    have "y - x = (of_int (round_half_even (x / ulp)) - x / ulp) * ulp"
      using ulp_pos by (simp add: y_def field_simps)
    then show ?thesis using ulp_pos by (simp add: abs_mult)
  qed
  also have "\<dots> \<le> (1 / 2) * ulp"
    using round_half_even_near [of "x / ulp"] ulp_pos by (intro mult_right_mono) simp_all
  also have "\<dots> = 2 powr (- 53) * 2 powr (of_int e)" using ulp_half by simp
  also have "\<dots> \<le> 2 powr (- 53) * \<bar>x\<bar>" using pe by (intro mult_left_mono) simp_all
  finally have err: "\<bar>y - x\<bar> \<le> 2 powr (- 53) * \<bar>x\<bar>" .
  have "\<bar>y\<bar> \<le> \<bar>x\<bar> + \<bar>y - x\<bar>" by simp
  also have "\<dots> \<le> \<bar>x\<bar> + 2 powr (- 53) * \<bar>x\<bar>" using err by simp
  also have "\<dots> = (1 + 2 powr (- 53)) * \<bar>x\<bar>" by (simp add: algebra_simps)
  also have "\<dots> \<le> (1 + 2 powr (- 53)) * 2 powr 1023"
    using hi by (intro mult_left_mono) simp_all
  also have "\<dots> < 2 * 2 powr 1023"
  proof -
    have "(2::real) powr (- 53) < 1" by (simp add: powr_minus powr_numeral divide_simps)
    then show ?thesis by (intro mult_strict_right_mono) simp_all
  qed
  also have "\<dots> = 2 powr 1024"
  proof -
    have "(2::real) powr 1024 = 2 powr (1 + 1023)" by simp
    also have "\<dots> = 2 powr 1 * 2 powr 1023" by (simp only: powr_add)
    finally show ?thesis by simp
  qed
  finally have fin: "\<not> 2 powr 1024 \<le> \<bar>y\<bar>" by simp
  have m: "max (- 1022) \<lfloor>log 2 \<bar>x\<bar>\<rfloor> = e" using e_ge by (simp add: e_def)
  have "round_double x = Num y"
    using x0 fin unfolding round_double_def m Let_def ulp_def [symmetric] y_def [symmetric]
    by simp
  with err show ?thesis by blast
qed

lemma round_double_tiny:
  assumes "\<bar>x\<bar> < 2 powr (- 1022)"
  shows "\<exists>y. round_double x = Num y \<and> \<bar>y\<bar> \<le> 2 powr (- 1022)"
proof (cases "x = 0")
  case True
  then show ?thesis by (simp add: round_double_def)
next
  case x0: False
  define ulp :: real where "ulp = 2 powr (- 1074)"
  define y where "y = of_int (round_half_even (x / ulp)) * ulp"
  have xpos: "0 < \<bar>x\<bar>" using x0 by simp
  have "log 2 \<bar>x\<bar> < log 2 (2 powr (- 1022))"
    using assms xpos by (subst log_less_cancel_iff) simp_all
  then have "log 2 \<bar>x\<bar> < - 1022" by simp
  then have "\<lfloor>log 2 \<bar>x\<bar>\<rfloor> < - 1022" by (simp add: floor_less_iff)
  then have m: "max (- 1022) \<lfloor>log 2 \<bar>x\<bar>\<rfloor> = - 1022" by simp
  have ulp_pos: "0 < ulp" by (simp add: ulp_def)
  have lo_ulp: "(2::real) powr (- 1022) = of_int (2 ^ 52) * ulp"
  proof -
    have "(2::real) powr (- 1022) = 2 powr (52 + (- 1074))" by simp
    also have "\<dots> = 2 powr 52 * 2 powr (- 1074)" by (simp only: powr_add)
    finally show ?thesis by (simp add: ulp_def powr_numeral)
  qed
  have "\<bar>x / ulp\<bar> \<le> of_int (2 ^ 52)"
    using assms ulp_pos unfolding lo_ulp by (simp add: abs_divide pos_divide_le_eq)
  then have "\<bar>round_half_even (x / ulp)\<bar> \<le> 2 ^ 52" by (rule round_half_even_bound)
  then have "\<bar>of_int (round_half_even (x / ulp)) :: real\<bar> \<le> of_int (2 ^ 52)"
    by (metis of_int_abs of_int_le_iff)
  then have yb: "\<bar>y\<bar> \<le> 2 powr (- 1022)"
    unfolding lo_ulp y_def using ulp_pos by (simp add: abs_mult)
  have "(2::real) powr (- 1022) < 2 powr 1024" by (subst powr_less_cancel_iff) simp_all
  with yb have fin: "\<not> 2 powr 1024 \<le> \<bar>y\<bar>" by simp
  have u: "(2::real) powr (of_int (- 1022) - 52) = ulp" by (simp add: ulp_def)
  have "round_double x = Num y"
    using x0 fin unfolding round_double_def m Let_def u y_def [symmetric]
    by simp
  with yb show ?thesis by blast
qed

lemma round_double_rounds_within:
  "rounds_within (2 powr (- 53)) (2 powr (- 1022)) (2 powr 1023) round_double"
  unfolding rounds_within_def
  using round_double_zero round_double_normal round_double_tiny by blast

lemma round_half_even_unique:
  assumes "\<bar>z - of_int m\<bar> < 1 / 2"
  shows "round_half_even z = m"
proof (cases "of_int m \<le> z")
  case True
  have "z < of_int m + 1" using assms by linarith
  with True have "\<lfloor>z\<rfloor> = m" by (intro floor_unique) simp_all
  moreover have "z - of_int m < 1 / 2" using assms by linarith
  ultimately show ?thesis by (simp add: round_half_even_def)
next
  case False
  have "of_int m - 1 \<le> z" using assms by linarith
  with False have f: "\<lfloor>z\<rfloor> = m - 1" by (intro floor_unique) simp_all
  have a: "1 / 2 < z - of_int (m - 1)" using assms False by simp
  then have b: "\<not> z - of_int (m - 1) < 1 / 2" by linarith
  show ?thesis unfolding round_half_even_def Let_def f using a b by simp
qed

lemma round_double_eval:
  assumes e: "- 1022 \<le> e" "e \<le> 1022"
      and x: "2 powr (of_int e) \<le> \<bar>x\<bar>" "\<bar>x\<bar> < 2 powr (of_int e + 1)"
      and m: "\<bar>x / 2 powr (of_int e - 52) - of_int m\<bar> < 1 / 2"
  shows "round_double x = Num (of_int m * 2 powr (of_int e - 52))"
proof -
  have "0 < (2::real) powr (of_int e)" by simp
  with x(1) have xpos: "0 < \<bar>x\<bar>" by linarith
  then have x0: "x \<noteq> 0" by simp
  have "log 2 (2 powr (of_int e)) \<le> log 2 \<bar>x\<bar>"
    using x(1) xpos by (subst log_le_cancel_iff) simp_all
  then have l1: "of_int e \<le> log 2 \<bar>x\<bar>" by simp
  have "log 2 \<bar>x\<bar> < log 2 (2 powr (of_int e + 1))"
    using x(2) xpos by (subst log_less_cancel_iff) simp_all
  then have l2: "log 2 \<bar>x\<bar> < of_int e + 1" by simp
  from l1 l2 have fl: "\<lfloor>log 2 \<bar>x\<bar>\<rfloor> = e" by (intro floor_unique) simp_all
  have mx: "max (- 1022) \<lfloor>log 2 \<bar>x\<bar>\<rfloor> = e" using e(1) by (simp add: fl)
  define ulp :: real where "ulp = 2 powr (of_int e - 52)"
  have ulp_pos: "0 < ulp" by (simp add: ulp_def)
  have r: "round_half_even (x / ulp) = m"
    using m unfolding ulp_def by (rule round_half_even_unique)
  have e1: "(2::real) powr (of_int e + 1) = 2 ^ 53 * ulp"
  proof -
    have a: "(of_int e :: real) + 1 = 53 + (of_int e - 52)" by simp
    have "(2::real) powr (of_int e + 1) = 2 powr 53 * 2 powr (of_int e - 52)"
      by (simp only: a powr_add)
    then show ?thesis by (simp add: ulp_def powr_numeral)
  qed
  have "\<bar>x / ulp\<bar> < 2 ^ 53"
    using x(2) ulp_pos unfolding e1 by (simp add: abs_divide pos_divide_less_eq)
  with m have "\<bar>of_int m :: real\<bar> < 2 ^ 53 + 1 / 2"
    unfolding ulp_def [symmetric] by linarith
  then have "\<bar>of_int m :: real\<bar> < of_int (2 ^ 53 + 1)" by simp
  then have "\<bar>m\<bar> < 2 ^ 53 + 1" by (metis of_int_abs of_int_less_iff)
  then have "\<bar>m\<bar> \<le> 2 ^ 53" by simp
  then have "\<bar>of_int m :: real\<bar> \<le> of_int (2 ^ 53)" by (metis of_int_abs of_int_le_iff)
  then have "\<bar>of_int m * ulp\<bar> \<le> 2 ^ 53 * ulp"
    using ulp_pos by (simp add: abs_mult)
  also have "\<dots> = 2 powr (of_int e + 1)" by (simp only: e1)
  also have "\<dots> < 2 powr 1024"
    using e(2) by (subst powr_less_cancel_iff) simp_all
  finally have fin: "\<not> 2 powr 1024 \<le> \<bar>of_int m * ulp\<bar>" by simp
  show ?thesis
    using x0 fin unfolding round_double_def mx Let_def ulp_def [symmetric] r
    by simp
qed

lemma round_double_unit:
  assumes "1 \<le> \<bar>x\<bar>" "\<bar>x\<bar> < 2" "\<bar>x * 2 ^ 52 - of_int m\<bar> < 1 / 2"
  shows "round_double x = Num (of_int m / 2 ^ 52)"
proof -
  have p: "(2::real) powr (- 52) = 1 / 2 ^ 52"
    by (simp add: powr_minus powr_numeral divide_simps)
  have "round_double x = Num (of_int m * 2 powr (of_int 0 - 52))"
  proof (rule round_double_eval)
    show "\<bar>x / 2 powr (of_int 0 - 52) - of_int m\<bar> < 1 / 2"
      using assms(3) by (simp add: p)
  qed (use assms in simp_all)
  then show ?thesis by (simp add: p)
qed

lemma round_double_two:
  assumes "2 \<le> \<bar>x\<bar>" "\<bar>x\<bar> < 4" "\<bar>x * 2 ^ 51 - of_int m\<bar> < 1 / 2"
  shows "round_double x = Num (of_int m / 2 ^ 51)"
proof -
  have p: "(2::real) powr (- 51) = 1 / 2 ^ 51"
    by (simp add: powr_minus powr_numeral divide_simps)
  have "round_double x = Num (of_int m * 2 powr (of_int 1 - 52))"
  proof (rule round_double_eval)
    show "\<bar>x / 2 powr (of_int 1 - 52) - of_int m\<bar> < 1 / 2"
      using assms(3) by (simp add: p)
  qed (use assms in simp_all)
  then show ?thesis by (simp add: p)
qed

lemma round_double_small_integers:
  "round_double 1 = Num 1" "round_double 2 = Num 2" "round_double 3 = Num 3"
proof -
  show "round_double 1 = Num 1"
    using round_double_unit [of 1 "2 ^ 52"] by simp
  show "round_double 2 = Num 2"
    using round_double_two [of 2 "2 ^ 52"] by simp
  show "round_double 3 = Num 3"
    using round_double_two [of 3 "3 * 2 ^ 51"] by simp
qed

lemma round_double_underflow:
  assumes "\<bar>x\<bar> < 2 powr (- 1075)"
  shows "round_double x = Num 0"
proof (cases "x = 0")
  case True
  then show ?thesis by (simp add: round_double_def)
next
  case x0: False
  then have xpos: "0 < \<bar>x\<bar>" by simp
  have "(2::real) powr (- 1075) < 2 powr (- 1022)" by (subst powr_less_cancel_iff) simp_all
  with assms have "\<bar>x\<bar> < 2 powr (- 1022)" by (rule less_trans)
  then have "log 2 \<bar>x\<bar> < log 2 (2 powr (- 1022))"
    using xpos by (subst log_less_cancel_iff) simp_all
  then have "log 2 \<bar>x\<bar> < - 1022" by simp
  then have "\<lfloor>log 2 \<bar>x\<bar>\<rfloor> < - 1022" by (simp add: floor_less_iff)
  then have mx: "max (- 1022) \<lfloor>log 2 \<bar>x\<bar>\<rfloor> = - 1022" by simp
  define ulp :: real where "ulp = 2 powr (- 1074)"
  have ulp_pos: "0 < ulp" by (simp add: ulp_def)
  have h: "(2::real) powr (- 1075) = (1 / 2) * ulp"
  proof -
    have "(2::real) powr (- 1075) = 2 powr (- 1 + (- 1074))" by simp
    also have "\<dots> = 2 powr (- 1) * 2 powr (- 1074)" by (simp only: powr_add)
    finally show ?thesis by (simp add: ulp_def powr_minus)
  qed
  have "\<bar>x / ulp\<bar> < 1 / 2"
    using assms ulp_pos unfolding h by (simp add: abs_divide pos_divide_less_eq)
  then have "round_half_even (x / ulp) = 0"
    by (intro round_half_even_unique) simp
  moreover have "(2::real) powr (of_int (- 1022) - 52) = ulp" by (simp add: ulp_def)
  ultimately show ?thesis
    using x0 unfolding round_double_def mx Let_def by simp
qed

lemma power_one_minus_ge_half:
  assumes "0 \<le> u" "u \<le> 1" "real k * u \<le> 1 / 2"
  shows "1 / 2 \<le> (1 - u) ^ k"
proof -
  have "1 + real k * (- u) \<le> (1 + (- u)) ^ k"
    using assms by (intro Bernoulli_inequality) simp
  with assms show ?thesis by simp
qed

lemma power_one_plus_le_two:
  assumes "0 \<le> u" "u < 1" "real k * u \<le> 1 / 2"
  shows "(1 + u) ^ k \<le> 2"
proof -
  have h: "1 / 2 \<le> (1 - u) ^ k" using assms by (intro power_one_minus_ge_half) simp_all
  have "(1 + u) ^ k * (1 - u) ^ k = ((1 + u) * (1 - u)) ^ k" by (simp add: power_mult_distrib)
  also have "\<dots> \<le> 1"
  proof -
    have "(1 + u) * (1 - u) = 1 - u * u" by (simp add: algebra_simps)
    moreover have "0 \<le> u * u" "u * u \<le> 1"
      using assms by (simp_all add: mult_le_one)
    ultimately show ?thesis by (intro power_le_one) simp_all
  qed
  finally have "(1 + u) ^ k * (1 - u) ^ k \<le> 1" .
  moreover have "(1 + u) ^ k * (1 / 2) \<le> (1 + u) ^ k * (1 - u) ^ k"
    using h assms by (intro mult_left_mono) simp_all
  ultimately show ?thesis by simp
qed

section \<open>The cost of an embedding in binary64 arithmetic\<close>

lemma round_double_2_100: "round_double (2 / 100) = Num (5764607523034235 / 2 ^ 58)"
proof -
  have p: "(2::real) powr (- 58) = 1 / 2 ^ 58" "(2::real) powr (- 6) = 1 / 2 ^ 6" "(2::real) powr (- 5) = 1 / 2 ^ 5"
    by (simp_all add: powr_minus powr_numeral divide_simps)
  have "round_double (2 / 100) = Num (of_int 5764607523034235 * 2 powr (of_int (- 6) - 52))"
  proof (rule round_double_eval)
    show "\<bar>2 / 100 / 2 powr (of_int (- 6) - 52) - of_int 5764607523034235\<bar> < (1 / 2 :: real)"
      by (simp add: p)
    show "2 powr of_int (- 6) \<le> \<bar>2 / 100 :: real\<bar>" by (simp add: p)
    show "\<bar>2 / 100 :: real\<bar> < 2 powr (of_int (- 6) + 1)" by (simp add: p)
  qed simp_all
  then show ?thesis by (simp add: p)
qed

lemma round_double_rate: "round_double (5764607523034235 / 2 ^ 58 / 1000000) = Num (6044629098073146 / 2 ^ 78)"
proof -
  have p: "(2::real) powr (- 78) = 1 / 2 ^ 78" "(2::real) powr (- 26) = 1 / 2 ^ 26" "(2::real) powr (- 25) = 1 / 2 ^ 25"
    by (simp_all add: powr_minus powr_numeral divide_simps)
  have "round_double (5764607523034235 / 2 ^ 58 / 1000000) = Num (of_int 6044629098073146 * 2 powr (of_int (- 26) - 52))"
  proof (rule round_double_eval)
    show "\<bar>5764607523034235 / 2 ^ 58 / 1000000 / 2 powr (of_int (- 26) - 52) - of_int 6044629098073146\<bar> < (1 / 2 :: real)"
      by (simp add: p)
    show "2 powr of_int (- 26) \<le> \<bar>5764607523034235 / 2 ^ 58 / 1000000 :: real\<bar>" by (simp add: p)
    show "\<bar>5764607523034235 / 2 ^ 58 / 1000000 :: real\<bar> < 2 powr (of_int (- 26) + 1)" by (simp add: p)
  qed simp_all
  then show ?thesis by (simp add: p)
qed

lemma round_double_amount: "round_double (6225 * (6044629098073146 / 2 ^ 78)) = Num (4593239274353678 / 2 ^ 65)"
proof -
  have p: "(2::real) powr (- 65) = 1 / 2 ^ 65" "(2::real) powr (- 13) = 1 / 2 ^ 13" "(2::real) powr (- 12) = 1 / 2 ^ 12"
    by (simp_all add: powr_minus powr_numeral divide_simps)
  have "round_double (6225 * (6044629098073146 / 2 ^ 78)) = Num (of_int 4593239274353678 * 2 powr (of_int (- 13) - 52))"
  proof (rule round_double_eval)
    show "\<bar>6225 * (6044629098073146 / 2 ^ 78) / 2 powr (of_int (- 13) - 52) - of_int 4593239274353678\<bar> < (1 / 2 :: real)"
      by (simp add: p)
    show "2 powr of_int (- 13) \<le> \<bar>6225 * (6044629098073146 / 2 ^ 78) :: real\<bar>" by (simp add: p)
    show "\<bar>6225 * (6044629098073146 / 2 ^ 78) :: real\<bar> < 2 powr (of_int (- 13) + 1)" by (simp add: p)
  qed simp_all
  then show ?thesis by (simp add: p)
qed

lemma round_double_scaled: "round_double (4593239274353678 / 2 ^ 65 * 1000000) = Num (8760908650119167 / 2 ^ 46)"
proof -
  have p: "(2::real) powr (- 46) = 1 / 2 ^ 46"
    by (simp_all add: powr_minus powr_numeral divide_simps)
  have "round_double (4593239274353678 / 2 ^ 65 * 1000000) = Num (of_int 8760908650119167 * 2 powr (of_int (6) - 52))"
  proof (rule round_double_eval)
    show "\<bar>4593239274353678 / 2 ^ 65 * 1000000 / 2 powr (of_int (6) - 52) - of_int 8760908650119167\<bar> < (1 / 2 :: real)"
      by (simp add: p)
    show "2 powr of_int (6) \<le> \<bar>4593239274353678 / 2 ^ 65 * 1000000 :: real\<bar>" by (simp add: p)
    show "\<bar>4593239274353678 / 2 ^ 65 * 1000000 :: real\<bar> < 2 powr (of_int (6) + 1)" by (simp add: p)
  qed simp_all
  then show ?thesis by (simp add: p)
qed

lemma round_double_124: "round_double (124 / 1000000) = Num (4574792530279969 / 2 ^ 65)"
proof -
  have p: "(2::real) powr (- 65) = 1 / 2 ^ 65" "(2::real) powr (- 13) = 1 / 2 ^ 13" "(2::real) powr (- 12) = 1 / 2 ^ 12"
    by (simp_all add: powr_minus powr_numeral divide_simps)
  have "round_double (124 / 1000000) = Num (of_int 4574792530279969 * 2 powr (of_int (- 13) - 52))"
  proof (rule round_double_eval)
    show "\<bar>124 / 1000000 / 2 powr (of_int (- 13) - 52) - of_int 4574792530279969\<bar> < (1 / 2 :: real)"
      by (simp add: p)
    show "2 powr of_int (- 13) \<le> \<bar>124 / 1000000 :: real\<bar>" by (simp add: p)
    show "\<bar>124 / 1000000 :: real\<bar> < 2 powr (of_int (- 13) + 1)" by (simp add: p)
  qed simp_all
  then show ?thesis by (simp add: p)
qed

text \<open>
  The cost of 6225 tokens of \<open>openai/text-embedding-3-small\<close>, in binary64 arithmetic:
  \<open>6225 * (0.02 / 1000000) * 1000000\<close> is \<open>124.49999999999999\<close>, which \<open>Math.round\<close> takes to
  124, so the amount is the double nearest to 0.000124 (in exact arithmetic the product is
  124.5 and the amount 0.000125).
\<close>

lemma cost_of_6225_tokens:
  "cost_amount (calculateEmbeddingCost round_double ''openai/text-embedding-3-small'' 6225)
   = round_double (124 / 1000000)"
proof -
  have nz: "((1000000::real) = 0) = False" by simp
  have pr: "pricing round_double ''openai/text-embedding-3-small''
            = Some (js_div round_double (round_double (2 / 100)) (Num 1000000))"
    by (simp add: pricing_def del: js_div.simps)
  have rate: "js_div round_double (round_double (2 / 100)) (Num 1000000)
              = Num (6044629098073146 / 2 ^ 78)"
    by (simp only: round_double_2_100 js_div.simps nz if_False round_double_rate)
  have amount: "js_mul round_double (Num (of_nat 6225)) (Num (6044629098073146 / 2 ^ 78))
                = Num (4593239274353678 / 2 ^ 65)"
    by (simp only: js_mul.simps of_nat_numeral round_double_amount)
  have scaled: "js_mul round_double (Num (4593239274353678 / 2 ^ 65)) (Num 1000000)
                = Num (8760908650119167 / 2 ^ 46)"
    by (simp only: js_mul.simps round_double_scaled)
  have rounded: "js_math_round (Num (8760908650119167 / 2 ^ 46)) = Num 124"
    by simp
  have final: "js_div round_double (Num 124) (Num 1000000) = round_double (124 / 1000000)"
    by (simp only: js_div.simps nz if_False)
  show ?thesis
    by (simp only: calculateEmbeddingCost_def Let_def pr option.case rate amount scaled rounded
          final embedding_cost.select_convs)
qed

section \<open>The cosine similarity in rounded arithmetic\<close>

lemma rounds_within_zero: "rounds_within u lo hi fl \<Longrightarrow> fl 0 = Num 0"
  by (simp add: rounds_within_def)

lemma rounds_within_nonneg:
  assumes rw: "rounds_within u lo hi fl" and x: "x = 0 \<or> (lo \<le> x \<and> x \<le> hi)" and lo: "0 < lo"
  shows "\<exists>y. fl x = Num y \<and> (1 - u) * x \<le> y \<and> y \<le> (1 + u) * x"
proof (cases "x = 0")
  case True
  then show ?thesis using rounds_within_zero [OF rw] by simp
next
  case False
  with x lo have r: "lo \<le> \<bar>x\<bar> \<and> \<bar>x\<bar> \<le> hi" and p: "0 < x" by auto
  from rw r obtain y where y: "fl x = Num y" "\<bar>y - x\<bar> \<le> u * \<bar>x\<bar>"
    unfolding rounds_within_def by blast
  from y(2) p have "(1 - u) * x \<le> y" "y \<le> (1 + u) * x"
    by (simp_all add: abs_le_iff algebra_simps)
  with y(1) show ?thesis by blast
qed

lemma rounds_within_abs:
  assumes rw: "rounds_within u lo hi fl" and x: "\<bar>x\<bar> \<le> hi" and lo: "0 < lo" and u: "0 \<le> u"
  shows "\<exists>y. fl x = Num y \<and> (\<bar>y\<bar> \<le> (1 + u) * \<bar>x\<bar> \<or> (x \<noteq> 0 \<and> \<bar>y\<bar> \<le> lo))"
proof (cases "x = 0")
  case True
  then show ?thesis using rounds_within_zero [OF rw] by simp
next
  case x0: False
  show ?thesis
  proof (cases "\<bar>x\<bar> < lo")
    case True
    with rw obtain y where "fl x = Num y" "\<bar>y\<bar> \<le> lo"
      unfolding rounds_within_def by blast
    with x0 show ?thesis by blast
  next
    case False
    with x have "lo \<le> \<bar>x\<bar> \<and> \<bar>x\<bar> \<le> hi" by simp
    with rw obtain y where y: "fl x = Num y" "\<bar>y - x\<bar> \<le> u * \<bar>x\<bar>"
      unfolding rounds_within_def by blast
    have "\<bar>y\<bar> \<le> \<bar>x\<bar> + \<bar>y - x\<bar>" by simp
    also have "\<dots> \<le> \<bar>x\<bar> + u * \<bar>x\<bar>" using y(2) by simp
    finally have "\<bar>y\<bar> \<le> (1 + u) * \<bar>x\<bar>" by (simp add: algebra_simps)
    with y(1) show ?thesis by blast
  qed
qed

text \<open>One turn of the loop on a sum of squares.\<close>

lemma norm_step:
  assumes rw: "rounds_within u lo hi fl" and u: "0 \<le> u" "u < 1" and lo: "0 < lo"
      and lp: "0 \<le> lp" "lp \<le> 1 - u" and up: "1 + u \<le> up"
      and a0: "lp * A0 \<le> a0" "a0 \<le> up * A0"
      and A0: "A0 = 0 \<or> m * m \<le> A0"
      and x: "x = 0 \<or> (m \<le> \<bar>x\<bar> \<and> \<bar>x\<bar> \<le> M)"
      and m: "0 < m" "m \<le> M"
      and lo_ok: "lo \<le> (1 - u) * lp * (m * m)"
      and hi_ok: "(1 + u) * up * (A0 + M * M) \<le> hi"
  shows "\<exists>a1. js_add fl (Num a0) (js_mul fl (Num x) (Num x)) = Num a1
            \<and> (1 - u) * lp * (A0 + x * x) \<le> a1 \<and> a1 \<le> (1 + u) * up * (A0 + x * x)"
proof -
  have mm: "0 < m * m" using m by simp
  have A0n: "0 \<le> A0" using A0 mm by auto
  have up1: "1 \<le> up" using up u by simp
  have lp1: "lp \<le> 1" using lp u by simp
  have u1: "0 < 1 - u" "1 - u \<le> 1" "1 \<le> 1 + u" using u by simp_all
  have xx: "0 \<le> x * x" by simp
  have xxM: "x * x \<le> M * M"
  proof -
    from x have "\<bar>x\<bar> \<le> M" using m by auto
    then have "\<bar>x\<bar> * \<bar>x\<bar> \<le> M * M" by (intro mult_mono) simp_all
    then show ?thesis by (simp add: abs_mult_self_eq)
  qed
  have xxm: "m * m \<le> x * x" if "x \<noteq> 0"
  proof -
    from x that have "m \<le> \<bar>x\<bar>" by auto
    then have "m * m \<le> \<bar>x\<bar> * \<bar>x\<bar>" using m by (intro mult_mono) simp_all
    then show ?thesis by (simp add: abs_mult_self_eq)
  qed
  have lo1: "lo \<le> (1 - u) * (m * m)"
  proof -
    have "(1 - u) * lp * (m * m) \<le> (1 - u) * 1 * (m * m)"
      using lp1 u1 mm by (intro mult_right_mono mult_left_mono) simp_all
    with lo_ok show ?thesis by simp
  qed
  have lo2: "lo \<le> lp * (m * m)"
  proof -
    have "(1 - u) * lp * (m * m) \<le> 1 * lp * (m * m)"
      using lp u1 mm by (intro mult_right_mono) simp_all
    with lo_ok show ?thesis by simp
  qed
  have hi1: "(1 + u) * (M * M) \<le> hi"
  proof -
    have "(1 + u) * (M * M) \<le> (1 + u) * (A0 + M * M)"
      using A0n u1 by (intro mult_left_mono) simp_all
    also have "\<dots> = (1 + u) * 1 * (A0 + M * M)" by simp
    also have "\<dots> \<le> (1 + u) * up * (A0 + M * M)"
      using up1 u1 A0n by (intro mult_right_mono mult_left_mono) simp_all
    finally show ?thesis using hi_ok by simp
  qed
  have hi2: "up * (A0 + M * M) \<le> hi"
  proof -
    have "1 * (up * (A0 + M * M)) \<le> (1 + u) * (up * (A0 + M * M))"
      using up1 u1 A0n by (intro mult_right_mono) simp_all
    with hi_ok show ?thesis by (simp add: mult.assoc)
  qed
  have "x * x = 0 \<or> (lo \<le> x * x \<and> x * x \<le> hi)"
  proof (cases "x = 0")
    case True then show ?thesis by simp
  next
    case False
    have "lo \<le> m * m"
    proof -
      have "(1 - u) * (m * m) \<le> 1 * (m * m)" using u1 mm by (intro mult_right_mono) simp_all
      with lo1 show ?thesis by simp
    qed
    with xxm [OF False] have "lo \<le> x * x" by simp
    moreover have "x * x \<le> hi"
    proof -
      have "1 * (M * M) \<le> (1 + u) * (M * M)" using u1 by (intro mult_right_mono) simp_all
      with hi1 xxM show ?thesis by simp
    qed
    ultimately show ?thesis by simp
  qed
  from rounds_within_nonneg [OF rw this lo] obtain p where
    p: "fl (x * x) = Num p" "(1 - u) * (x * x) \<le> p" "p \<le> (1 + u) * (x * x)"
    by blast
  have p0: "0 \<le> p" using p(2) u1 xx by (meson mult_nonneg_nonneg less_imp_le order_trans)
  have a0n: "0 \<le> a0" using a0(1) lp A0n by (meson mult_nonneg_nonneg order_trans)
  have low: "lp * (A0 + x * x) \<le> a0 + p"
  proof -
    have "lp * (x * x) \<le> (1 - u) * (x * x)" using lp xx by (intro mult_right_mono) simp_all
    with a0(1) p(2) show ?thesis by (simp add: algebra_simps)
  qed
  have upp: "a0 + p \<le> up * (A0 + x * x)"
  proof -
    have "(1 + u) * (x * x) \<le> up * (x * x)" using up xx by (intro mult_right_mono) simp_all
    with a0(2) p(3) show ?thesis by (simp add: algebra_simps)
  qed
  have "a0 + p = 0 \<or> (lo \<le> a0 + p \<and> a0 + p \<le> hi)"
  proof (cases "a0 + p = 0")
    case True then show ?thesis by simp
  next
    case False
    have "lo \<le> a0 + p"
    proof (cases "x = 0")
      case True
      with p(3) p0 have "p = 0" by simp
      with False a0n have "0 < a0" by simp
      with a0(2) have "A0 \<noteq> 0" by auto
      with A0 have "m * m \<le> A0" by simp
      then have "lp * (m * m) \<le> lp * A0" using lp by (intro mult_left_mono) simp_all
      with lo2 a0(1) p0 show ?thesis by simp
    next
      case False
      from xxm [OF False] have "(1 - u) * (m * m) \<le> (1 - u) * (x * x)"
        using u1 by (intro mult_left_mono) simp_all
      with lo1 p(2) a0n show ?thesis by simp
    qed
    moreover have "a0 + p \<le> hi"
    proof -
      have "up * (A0 + x * x) \<le> up * (A0 + M * M)"
        using xxM up1 by (intro mult_left_mono) simp_all
      with upp hi2 show ?thesis by simp
    qed
    ultimately show ?thesis by simp
  qed
  from rounds_within_nonneg [OF rw this lo] obtain a1 where
    a1: "fl (a0 + p) = Num a1" "(1 - u) * (a0 + p) \<le> a1" "a1 \<le> (1 + u) * (a0 + p)"
    by blast
  have "(1 - u) * (lp * (A0 + x * x)) \<le> (1 - u) * (a0 + p)"
    using low u1 by (intro mult_left_mono) simp_all
  with a1(2) have r1: "(1 - u) * lp * (A0 + x * x) \<le> a1" by (simp add: mult.assoc)
  have "(1 + u) * (a0 + p) \<le> (1 + u) * (up * (A0 + x * x))"
    using upp u1 by (intro mult_left_mono) simp_all
  with a1(3) have r2: "a1 \<le> (1 + u) * up * (A0 + x * x)" by (simp add: mult.assoc)
  have "js_add fl (Num a0) (js_mul fl (Num x) (Num x)) = Num a1"
    by (simp add: p(1) a1(1))
  with r1 r2 show ?thesis by blast
qed

text \<open>One turn of the loop on the sum of products.\<close>

lemma dot_step:
  assumes rw: "rounds_within u lo hi fl" and u: "0 \<le> u" "u < 1" and lo: "0 < lo"
      and up: "1 + u \<le> up"
      and d0: "\<bar>d0\<bar> \<le> up * T0"
      and T0: "T0 = 0 \<or> m * m \<le> T0"
      and x: "x = 0 \<or> (m \<le> \<bar>x\<bar> \<and> \<bar>x\<bar> \<le> M)"
      and y: "y = 0 \<or> (m \<le> \<bar>y\<bar> \<and> \<bar>y\<bar> \<le> M)"
      and m: "0 < m" "m \<le> M"
      and lo_ok: "lo \<le> m * m"
      and hi_ok: "(1 + u) * up * (T0 + M * M) \<le> hi"
  shows "\<exists>d1. js_add fl (Num d0) (js_mul fl (Num x) (Num y)) = Num d1
            \<and> \<bar>d1\<bar> \<le> (1 + u) * up * (T0 + \<bar>x * y\<bar>)"
proof -
  have mm: "0 < m * m" using m by simp
  have T0n: "0 \<le> T0" using T0 mm by auto
  have up1: "1 \<le> up" using up u by simp
  have u1: "1 \<le> 1 + u" using u by simp
  have xyM: "\<bar>x * y\<bar> \<le> M * M"
  proof -
    from x y m have "\<bar>x\<bar> \<le> M" "\<bar>y\<bar> \<le> M" by auto
    then have "\<bar>x\<bar> * \<bar>y\<bar> \<le> M * M" by (intro mult_mono) simp_all
    then show ?thesis by (simp add: abs_mult)
  qed
  have xym: "m * m \<le> \<bar>x * y\<bar>" if "x * y \<noteq> 0"
  proof -
    from x y that have "m \<le> \<bar>x\<bar>" "m \<le> \<bar>y\<bar>" by auto
    then have "m * m \<le> \<bar>x\<bar> * \<bar>y\<bar>" using m by (intro mult_mono) simp_all
    then show ?thesis by (simp add: abs_mult)
  qed
  have hi2: "up * (T0 + M * M) \<le> hi"
  proof -
    have "1 * (up * (T0 + M * M)) \<le> (1 + u) * (up * (T0 + M * M))"
      using up1 u1 T0n by (intro mult_right_mono) simp_all
    with hi_ok show ?thesis by (simp add: mult.assoc)
  qed
  have hi1: "M * M \<le> hi"
  proof -
    have "1 * (T0 + M * M) \<le> up * (T0 + M * M)"
      using up1 T0n by (intro mult_right_mono) simp_all
    with hi2 T0n show ?thesis by simp
  qed
  have "\<bar>x * y\<bar> \<le> hi" using xyM hi1 by simp
  from rounds_within_abs [OF rw this lo u(1)] obtain p where
    p: "fl (x * y) = Num p"
       "\<bar>p\<bar> \<le> (1 + u) * \<bar>x * y\<bar> \<or> (x * y \<noteq> 0 \<and> \<bar>p\<bar> \<le> lo)"
    by blast
  have pb: "\<bar>p\<bar> \<le> (1 + u) * \<bar>x * y\<bar>"
  proof -
    have "\<bar>p\<bar> \<le> (1 + u) * \<bar>x * y\<bar>" if a: "x * y \<noteq> 0" "\<bar>p\<bar> \<le> lo"
    proof -
      have "1 * \<bar>x * y\<bar> \<le> (1 + u) * \<bar>x * y\<bar>" using u1 by (intro mult_right_mono) simp_all
      with xym [OF a(1)] lo_ok a(2) show ?thesis by simp
    qed
    with p(2) show ?thesis by blast
  qed
  have sb: "\<bar>d0 + p\<bar> \<le> up * (T0 + \<bar>x * y\<bar>)"
  proof -
    have "(1 + u) * \<bar>x * y\<bar> \<le> up * \<bar>x * y\<bar>" using up by (intro mult_right_mono) simp_all
    with pb have "\<bar>p\<bar> \<le> up * \<bar>x * y\<bar>" by simp
    moreover have "\<bar>d0 + p\<bar> \<le> \<bar>d0\<bar> + \<bar>p\<bar>" by simp
    ultimately show ?thesis using d0 by (simp add: algebra_simps)
  qed
  have "\<bar>d0 + p\<bar> \<le> hi"
  proof -
    have "up * (T0 + \<bar>x * y\<bar>) \<le> up * (T0 + M * M)"
      using xyM up1 by (intro mult_left_mono) simp_all
    with sb hi2 show ?thesis by simp
  qed
  from rounds_within_abs [OF rw this lo u(1)] obtain d1 where
    d1: "fl (d0 + p) = Num d1"
        "\<bar>d1\<bar> \<le> (1 + u) * \<bar>d0 + p\<bar> \<or> (d0 + p \<noteq> 0 \<and> \<bar>d1\<bar> \<le> lo)"
    by blast
  have T1n: "0 \<le> T0 + \<bar>x * y\<bar>" using T0n by simp
  have big: "up * (T0 + \<bar>x * y\<bar>) \<le> (1 + u) * up * (T0 + \<bar>x * y\<bar>)"
  proof -
    have "1 * (up * (T0 + \<bar>x * y\<bar>)) \<le> (1 + u) * (up * (T0 + \<bar>x * y\<bar>))"
      using u1 up1 T1n by (intro mult_right_mono) simp_all
    then show ?thesis by (simp add: mult.assoc)
  qed
  have "\<bar>d1\<bar> \<le> (1 + u) * up * (T0 + \<bar>x * y\<bar>)"
  proof -
    have c1: "\<bar>d1\<bar> \<le> (1 + u) * up * (T0 + \<bar>x * y\<bar>)" if "\<bar>d1\<bar> \<le> (1 + u) * \<bar>d0 + p\<bar>"
    proof -
      have "(1 + u) * \<bar>d0 + p\<bar> \<le> (1 + u) * (up * (T0 + \<bar>x * y\<bar>))"
        using sb u1 by (intro mult_left_mono) simp_all
      with that show ?thesis by (simp add: mult.assoc)
    qed
    have c2: "\<bar>d1\<bar> \<le> (1 + u) * up * (T0 + \<bar>x * y\<bar>)" if a: "d0 + p \<noteq> 0" "\<bar>d1\<bar> \<le> lo"
    proof -
      have "T0 + \<bar>x * y\<bar> \<noteq> 0"
      proof
        assume z: "T0 + \<bar>x * y\<bar> = 0"
        have "0 \<le> \<bar>x * y\<bar>" by simp
        with z T0n have "T0 = 0" "\<bar>x * y\<bar> = 0" by linarith+
        with d0 pb have "d0 = 0" "p = 0" by simp_all
        with a(1) show False by simp
      qed
      then have "T0 \<noteq> 0 \<or> x * y \<noteq> 0" by auto
      then have "m * m \<le> T0 + \<bar>x * y\<bar>"
      proof
        assume "T0 \<noteq> 0"
        with T0 have "m * m \<le> T0" by simp
        then show ?thesis by simp
      next
        assume "x * y \<noteq> 0"
        from xym [OF this] T0n show ?thesis by simp
      qed
      moreover have "1 * (T0 + \<bar>x * y\<bar>) \<le> up * (T0 + \<bar>x * y\<bar>)"
        using up1 T1n by (intro mult_right_mono) simp_all
      ultimately show ?thesis using big lo_ok a(2) by simp
    qed
    from d1(2) c1 c2 show ?thesis by blast
  qed
  moreover have "js_add fl (Num d0) (js_mul fl (Num x) (Num y)) = Num d1"
    by (simp add: p(1) d1(1))
  ultimately show ?thesis by blast
qed

lemma power_margin_lo:
  assumes "0 \<le> u" "u < 1" "j \<le> n" "lo \<le> (1 - u) ^ n * c" "0 \<le> (c::real)"
  shows "lo \<le> (1 - u) ^ j * c"
proof -
  have "(1 - u) ^ n \<le> (1 - u) ^ j" using assms by (intro power_decreasing) simp_all
  then have "(1 - u) ^ n * c \<le> (1 - u) ^ j * c" using assms by (intro mult_right_mono) simp_all
  with assms show ?thesis by simp
qed

lemma power_margin_hi:
  assumes "0 \<le> u" "j \<le> n" "(1 + u) ^ n * c \<le> hi" "0 \<le> (c::real)" "0 \<le> b" "b \<le> c"
  shows "(1 + u) ^ j * b \<le> hi"
proof -
  have "(1 + u) ^ j \<le> (1 + u) ^ n" using assms by (intro power_increasing) simp_all
  then have "(1 + u) ^ j * b \<le> (1 + u) ^ n * c" using assms by (intro mult_mono) simp_all
  with assms show ?thesis by simp
qed

text \<open>
  The loop after \<open>k\<close> turns, with the exact sums \<open>T0\<close>, \<open>A0\<close>, \<open>B0\<close> of the absolute products
  and of the squares so far.
\<close>

lemma cosine_loop_bounds:
  assumes rw: "rounds_within u lo hi fl" and u: "0 \<le> u" "u < 1" and lo: "0 < lo"
      and m: "0 < m" "m \<le> M"
      and lo_ok: "lo \<le> (1 - u) ^ Suc n * (m * m)"
      and hi_ok: "(1 + u) ^ Suc n * (real n * (M * M)) \<le> hi"
      and len: "length a = length b"
      and k: "k + length a \<le> n"
      and ra: "\<forall>x\<in>set a. x = 0 \<or> (m \<le> \<bar>x\<bar> \<and> \<bar>x\<bar> \<le> M)"
      and rb: "\<forall>y\<in>set b. y = 0 \<or> (m \<le> \<bar>y\<bar> \<and> \<bar>y\<bar> \<le> M)"
      and d0: "\<bar>d0\<bar> \<le> (1 + u) ^ Suc k * T0"
      and a0: "(1 - u) ^ Suc k * A0 \<le> a0" "a0 \<le> (1 + u) ^ Suc k * A0"
      and b0: "(1 - u) ^ Suc k * B0 \<le> b0" "b0 \<le> (1 + u) ^ Suc k * B0"
      and T0: "T0 = 0 \<or> m * m \<le> T0" "T0 \<le> real k * (M * M)"
      and A0: "A0 = 0 \<or> m * m \<le> A0" "A0 \<le> real k * (M * M)"
      and B0: "B0 = 0 \<or> m * m \<le> B0" "B0 \<le> real k * (M * M)"
  shows "\<exists>d na nb. cosine_loop fl a b (Num d0, Num a0, Num b0) = (Num d, Num na, Num nb)
           \<and> \<bar>d\<bar> \<le> (1 + u) ^ Suc (k + length a)
                      * (T0 + sum_list (map (\<lambda>(x, y). \<bar>x * y\<bar>) (zip a b)))
           \<and> (1 - u) ^ Suc (k + length a) * (A0 + sum_list (map (\<lambda>x. x * x) a)) \<le> na
           \<and> na \<le> (1 + u) ^ Suc (k + length a) * (A0 + sum_list (map (\<lambda>x. x * x) a))
           \<and> (1 - u) ^ Suc (k + length a) * (B0 + sum_list (map (\<lambda>x. x * x) b)) \<le> nb
           \<and> nb \<le> (1 + u) ^ Suc (k + length a) * (B0 + sum_list (map (\<lambda>x. x * x) b))"
  using len k ra rb d0 a0 b0 T0 A0 B0
proof (induction a b arbitrary: k d0 a0 b0 T0 A0 B0 rule: list_induct2)
  case Nil
  then show ?case by simp
next
  case (Cons x xs y ys)
  have kn: "Suc k \<le> n" using Cons.prems(1) by simp
  have mm: "0 < m * m" using m by simp
  have MM: "0 \<le> M * M" by simp
  have x: "x = 0 \<or> (m \<le> \<bar>x\<bar> \<and> \<bar>x\<bar> \<le> M)" using Cons.prems(2) by simp
  have y: "y = 0 \<or> (m \<le> \<bar>y\<bar> \<and> \<bar>y\<bar> \<le> M)" using Cons.prems(3) by simp
  have lp: "0 \<le> (1 - u) ^ Suc k" "(1 - u) ^ Suc k \<le> 1 - u"
  proof -
    show "0 \<le> (1 - u) ^ Suc k" using u by (intro zero_le_power) simp
    show "(1 - u) ^ Suc k \<le> 1 - u" using u by (intro power_Suc_le_self) simp_all
  qed
  have up: "1 + u \<le> (1 + u) ^ Suc k"
    using u by (simp add: mult_le_cancel_left1 one_le_power) 
  have lo2: "lo \<le> (1 - u) * (1 - u) ^ Suc k * (m * m)"
  proof -
    have "lo \<le> (1 - u) ^ Suc (Suc k) * (m * m)"
      using kn mm by (intro power_margin_lo [OF u _ lo_ok]) simp_all
    then show ?thesis by (simp add: mult.assoc)
  qed
  have lo1: "lo \<le> m * m"
    using power_margin_lo [OF u _ lo_ok, of 0] mm by simp
  have T0n: "0 \<le> T0" using Cons.prems(9) mm by auto
  have A0n: "0 \<le> A0" using Cons.prems(11) mm by auto
  have B0n: "0 \<le> B0" using Cons.prems(13) mm by auto
  have hi2: "(1 + u) * (1 + u) ^ Suc k * (S + M * M) \<le> hi"
    if "0 \<le> S" "S \<le> real k * (M * M)" for S
  proof -
    have "S + M * M \<le> real (Suc k) * (M * M)" using that by (simp add: algebra_simps)
    also have "\<dots> \<le> real n * (M * M)" using kn MM by (intro mult_right_mono) simp_all
    finally have le: "S + M * M \<le> real n * (M * M)" .
    have "(1 + u) ^ Suc (Suc k) * (S + M * M) \<le> hi"
      using kn that le by (intro power_margin_hi [OF u(1) _ hi_ok]) simp_all
    then show ?thesis by (simp add: mult.assoc)
  qed
  from dot_step [OF rw u lo up Cons.prems(4) Cons.prems(9) x y m lo1
      hi2 [OF T0n Cons.prems(10)]]
  obtain d1 where d1: "js_add fl (Num d0) (js_mul fl (Num x) (Num y)) = Num d1"
      "\<bar>d1\<bar> \<le> (1 + u) * (1 + u) ^ Suc k * (T0 + \<bar>x * y\<bar>)"
    by blast
  from norm_step [OF rw u lo lp up Cons.prems(5,6) Cons.prems(11) x m lo2
      hi2 [OF A0n Cons.prems(12)]]
  obtain a1 where a1: "js_add fl (Num a0) (js_mul fl (Num x) (Num x)) = Num a1"
      "(1 - u) * (1 - u) ^ Suc k * (A0 + x * x) \<le> a1"
      "a1 \<le> (1 + u) * (1 + u) ^ Suc k * (A0 + x * x)"
    by blast
  from norm_step [OF rw u lo lp up Cons.prems(7,8) Cons.prems(13) y m lo2
      hi2 [OF B0n Cons.prems(14)]]
  obtain b1 where b1: "js_add fl (Num b0) (js_mul fl (Num y) (Num y)) = Num b1"
      "(1 - u) * (1 - u) ^ Suc k * (B0 + y * y) \<le> b1"
      "b1 \<le> (1 + u) * (1 + u) ^ Suc k * (B0 + y * y)"
    by blast
  have sq_m: "m * m \<le> z * z" if "z = 0 \<or> (m \<le> \<bar>z\<bar> \<and> \<bar>z\<bar> \<le> M)" "z \<noteq> 0" for z
  proof -
    from that have "m \<le> \<bar>z\<bar>" by auto
    then have "m * m \<le> \<bar>z\<bar> * \<bar>z\<bar>" using m by (intro mult_mono) simp_all
    then show ?thesis by (simp add: abs_mult_self_eq)
  qed
  have sq_M: "z * z \<le> M * M" if "z = 0 \<or> (m \<le> \<bar>z\<bar> \<and> \<bar>z\<bar> \<le> M)" for z
  proof -
    from that m have "\<bar>z\<bar> \<le> M" by auto
    then have "\<bar>z\<bar> * \<bar>z\<bar> \<le> M * M" by (intro mult_mono) simp_all
    then show ?thesis by (simp add: abs_mult_self_eq)
  qed
  have pr_m: "m * m \<le> \<bar>x * y\<bar>" if "x * y \<noteq> 0"
  proof -
    from x y that have "m \<le> \<bar>x\<bar>" "m \<le> \<bar>y\<bar>" by auto
    then have "m * m \<le> \<bar>x\<bar> * \<bar>y\<bar>" using m by (intro mult_mono) simp_all
    then show ?thesis by (simp add: abs_mult)
  qed
  have pr_M: "\<bar>x * y\<bar> \<le> M * M"
  proof -
    from x y m have "\<bar>x\<bar> \<le> M" "\<bar>y\<bar> \<le> M" by auto
    then have "\<bar>x\<bar> * \<bar>y\<bar> \<le> M * M" by (intro mult_mono) simp_all
    then show ?thesis by (simp add: abs_mult)
  qed
  have T1: "T0 + \<bar>x * y\<bar> = 0 \<or> m * m \<le> T0 + \<bar>x * y\<bar>"
    using pr_m T0n Cons.prems(9) by (cases "x * y = 0") auto
  have T1b: "T0 + \<bar>x * y\<bar> \<le> real (Suc k) * (M * M)"
    using pr_M Cons.prems(10) by (simp add: algebra_simps)
  have A1: "A0 + x * x = 0 \<or> m * m \<le> A0 + x * x"
    using sq_m [OF x] A0n Cons.prems(11) by (cases "x = 0") auto
  have A1b: "A0 + x * x \<le> real (Suc k) * (M * M)"
    using sq_M [OF x] Cons.prems(12) by (simp add: algebra_simps)
  have B1: "B0 + y * y = 0 \<or> m * m \<le> B0 + y * y"
    using sq_m [OF y] B0n Cons.prems(13) by (cases "y = 0") auto
  have B1b: "B0 + y * y \<le> real (Suc k) * (M * M)"
    using sq_M [OF y] Cons.prems(14) by (simp add: algebra_simps)
  have k': "Suc k + length xs \<le> n" using Cons.prems(1) by simp
  have ra': "\<forall>x\<in>set xs. x = 0 \<or> (m \<le> \<bar>x\<bar> \<and> \<bar>x\<bar> \<le> M)" using Cons.prems(2) by simp
  have rb': "\<forall>y\<in>set ys. y = 0 \<or> (m \<le> \<bar>y\<bar> \<and> \<bar>y\<bar> \<le> M)" using Cons.prems(3) by simp
  have d1': "\<bar>d1\<bar> \<le> (1 + u) ^ Suc (Suc k) * (T0 + \<bar>x * y\<bar>)"
    using d1(2) by (simp add: mult.assoc)
  have a1': "(1 - u) ^ Suc (Suc k) * (A0 + x * x) \<le> a1"
      "a1 \<le> (1 + u) ^ Suc (Suc k) * (A0 + x * x)"
    using a1(2,3) by (simp_all add: mult.assoc)
  have b1': "(1 - u) ^ Suc (Suc k) * (B0 + y * y) \<le> b1"
      "b1 \<le> (1 + u) ^ Suc (Suc k) * (B0 + y * y)"
    using b1(2,3) by (simp_all add: mult.assoc)
  from Cons.IH [OF k' ra' rb' d1' a1' b1' T1 T1b A1 A1b B1 B1b]
  obtain d na nb where r:
    "cosine_loop fl xs ys (Num d1, Num a1, Num b1) = (Num d, Num na, Num nb)"
    "\<bar>d\<bar> \<le> (1 + u) ^ Suc (Suc k + length xs)
              * (T0 + \<bar>x * y\<bar> + sum_list (map (\<lambda>(x, y). \<bar>x * y\<bar>) (zip xs ys)))"
    "(1 - u) ^ Suc (Suc k + length xs) * (A0 + x * x + sum_list (map (\<lambda>x. x * x) xs)) \<le> na"
    "na \<le> (1 + u) ^ Suc (Suc k + length xs) * (A0 + x * x + sum_list (map (\<lambda>x. x * x) xs))"
    "(1 - u) ^ Suc (Suc k + length xs) * (B0 + y * y + sum_list (map (\<lambda>x. x * x) ys)) \<le> nb"
    "nb \<le> (1 + u) ^ Suc (Suc k + length xs) * (B0 + y * y + sum_list (map (\<lambda>x. x * x) ys))"
    by blast
  have e: "Suc (k + length (x # xs)) = Suc (Suc k + length xs)" by simp
  have "cosine_loop fl (x # xs) (y # ys) (Num d0, Num a0, Num b0) = (Num d, Num na, Num nb)"
    by (simp only: cosine_loop.simps d1(1) a1(1) b1(1) r(1))
  moreover have "\<bar>d\<bar> \<le> (1 + u) ^ Suc (k + length (x # xs))
              * (T0 + sum_list (map (\<lambda>(x, y). \<bar>x * y\<bar>) (zip (x # xs) (y # ys))))"
    unfolding e using r(2) by (simp add: add.assoc)
  moreover have
    "(1 - u) ^ Suc (k + length (x # xs)) * (A0 + sum_list (map (\<lambda>x. x * x) (x # xs))) \<le> na"
    "na \<le> (1 + u) ^ Suc (k + length (x # xs)) * (A0 + sum_list (map (\<lambda>x. x * x) (x # xs)))"
    "(1 - u) ^ Suc (k + length (x # xs)) * (B0 + sum_list (map (\<lambda>x. x * x) (y # ys))) \<le> nb"
    "nb \<le> (1 + u) ^ Suc (k + length (x # xs)) * (B0 + sum_list (map (\<lambda>x. x * x) (y # ys)))"
    unfolding e using r(3,4,5,6) by (simp_all add: add.assoc)
  ultimately show ?case by blast
qed

lemma sum_squares_nonneg: "0 \<le> sum_list (map (\<lambda>x. x * x) (a :: real list))"
  by (induction a) simp_all

lemma sum_squares_ge:
  "x \<in> set a \<Longrightarrow> x * x \<le> sum_list (map (\<lambda>x. x * x) (a :: real list))"
proof (induction a)
  case Nil
  then show ?case by simp
next
  case (Cons y ys)
  show ?case
  proof (cases "x = y")
    case True
    with sum_squares_nonneg [of ys] show ?thesis by simp
  next
    case False
    with Cons have "x * x \<le> sum_list (map (\<lambda>x. x * x) ys)" by simp
    then show ?thesis by (simp add: add_increasing)
  qed
qed

lemma sum_squares_le:
  "\<forall>x\<in>set a. x * x \<le> c \<Longrightarrow> sum_list (map (\<lambda>x. x * x) (a :: real list)) \<le> real (length a) * c"
  by (induction a) (simp_all add: algebra_simps)

lemma cauchy_schwarz_step:
  fixes D A B x y :: real
  assumes "D\<^sup>2 \<le> A * B" "0 \<le> A" "0 \<le> B"
  shows "(D + x * y)\<^sup>2 \<le> (A + x * x) * (B + y * y)"
proof -
  have "\<bar>D\<bar> \<le> sqrt (A * B)"
    using assms(1) by (simp add: real_le_rsqrt)
  then have dab: "\<bar>D\<bar> \<le> sqrt A * sqrt B"
    by (simp add: real_sqrt_mult)
  let ?u = "sqrt A * \<bar>y\<bar>" and ?w = "sqrt B * \<bar>x\<bar>"
  have "0 \<le> (?u - ?w)\<^sup>2" by simp
  then have "2 * ?u * ?w \<le> ?u\<^sup>2 + ?w\<^sup>2"
    by (simp add: power2_diff)
  moreover have "?u\<^sup>2 = A * y\<^sup>2" "?w\<^sup>2 = B * x\<^sup>2"
    using assms(2,3) by (simp_all add: power_mult_distrib)
  then have "?u\<^sup>2 = A * (y * y)" "?w\<^sup>2 = B * (x * x)"
    by (simp_all only: power2_eq_square)
  ultimately have amgm: "2 * (sqrt A * sqrt B) * (\<bar>x\<bar> * \<bar>y\<bar>) \<le> A * (y * y) + B * (x * x)"
    by (simp add: mult_ac)
  have "2 * D * (x * y) \<le> 2 * \<bar>D\<bar> * (\<bar>x\<bar> * \<bar>y\<bar>)"
    by (metis abs_ge_self abs_mult abs_numeral mult.assoc)
  also have "\<dots> \<le> 2 * (sqrt A * sqrt B) * (\<bar>x\<bar> * \<bar>y\<bar>)"
    using dab by (simp add: mult_right_mono)
  finally have "2 * D * (x * y) \<le> A * (y * y) + B * (x * x)"
    using amgm by linarith
  with assms(1) show ?thesis
    by (simp add: power2_eq_square algebra_simps)
qed

lemma cauchy_schwarz_abs:
  "length a = length b \<Longrightarrow>
   (sum_list (map (\<lambda>(x, y). \<bar>x * y\<bar>) (zip a b)))\<^sup>2
   \<le> sum_list (map (\<lambda>x. x * x) a) * sum_list (map (\<lambda>y. y * y) (b :: real list))"
proof (induction a b rule: list_induct2)
  case Nil
  then show ?case by simp
next
  case (Cons x xs y ys)
  have "(sum_list (map (\<lambda>(x, y). \<bar>x * y\<bar>) (zip xs ys)) + \<bar>x\<bar> * \<bar>y\<bar>)\<^sup>2
        \<le> (sum_list (map (\<lambda>x. x * x) xs) + \<bar>x\<bar> * \<bar>x\<bar>)
          * (sum_list (map (\<lambda>y. y * y) ys) + \<bar>y\<bar> * \<bar>y\<bar>)"
    by (rule cauchy_schwarz_step [OF Cons.IH sum_squares_nonneg sum_squares_nonneg])
  then show ?case by (simp add: add.commute abs_mult)
qed

lemma abs_products_le_sqrt:
  assumes "length a = length b"
  shows "sum_list (map (\<lambda>(x, y). \<bar>x * y\<bar>) (zip a b))
         \<le> sqrt (sum_list (map (\<lambda>x. x * x) a) * sum_list (map (\<lambda>y. y * y) (b :: real list)))"
proof -
  have "\<bar>sum_list (map (\<lambda>(x, y). \<bar>x * y\<bar>) (zip a b))\<bar>
        \<le> sqrt (sum_list (map (\<lambda>x. x * x) a) * sum_list (map (\<lambda>y. y * y) b))"
    using cauchy_schwarz_abs [OF assms] by (simp add: real_le_rsqrt)
  then show ?thesis by simp
qed

lemma sqrt_in_range:
  assumes "lo \<le> z" "z \<le> hi" "0 < lo" "lo \<le> 1" "1 \<le> (hi::real)"
  shows "lo \<le> sqrt z" "sqrt z \<le> hi"
proof -
  have z: "0 < z" using assms by simp
  show "lo \<le> sqrt z"
  proof (cases "z \<le> 1")
    case True
    have "z * z \<le> z * 1" using True z by (intro mult_left_mono) simp_all
    then have "z\<^sup>2 \<le> z" by (simp add: power2_eq_square)
    then have "z \<le> sqrt z" using z by (simp add: real_le_rsqrt)
    with assms show ?thesis by linarith
  next
    case False
    then have "1 \<le> sqrt z" by simp
    with assms show ?thesis by linarith
  qed
  show "sqrt z \<le> hi"
  proof (cases "1 \<le> z")
    case True
    have "z * 1 \<le> z * z" using True z by (intro mult_left_mono) simp_all
    then have "z \<le> z\<^sup>2" by (simp add: power2_eq_square)
    then have "sqrt z \<le> z" using z by (simp add: real_le_lsqrt)
    with assms show ?thesis by linarith
  next
    case False
    then have "sqrt z \<le> 1" by simp
    with assms show ?thesis by linarith
  qed
qed

text \<open>
  What the loop leaves for two vectors in range, and what the square roots and their
  product come to.
\<close>

lemma cosine_parts:
  assumes rw: "rounds_within u lo hi fl" and u: "0 \<le> u" "u < 1"
      and lo: "0 < lo" "lo \<le> 1" and hi: "1 \<le> hi"
      and m: "0 < m" "m \<le> M"
      and lo_ok: "lo \<le> (1 - u) ^ (n + 3) * (m * m)"
      and hi_ok: "(1 + u) ^ (n + 3) * (real n * (M * M)) \<le> hi"
      and len: "length a = length b" and n: "n = length a"
      and ra: "\<forall>x\<in>set a. x = 0 \<or> (m \<le> \<bar>x\<bar> \<and> \<bar>x\<bar> \<le> M)"
      and rb: "\<forall>y\<in>set b. y = 0 \<or> (m \<le> \<bar>y\<bar> \<and> \<bar>y\<bar> \<le> M)"
      and nza: "\<exists>x\<in>set a. x \<noteq> 0" and nzb: "\<exists>y\<in>set b. y \<noteq> 0"
  shows "\<exists>d na nb P R. cosine_loop fl a b (Num 0, Num 0, Num 0) = (Num d, Num na, Num nb)
           \<and> js_mul fl (js_sqrt fl (Num na)) (js_sqrt fl (Num nb)) = Num P
           \<and> 0 < R
           \<and> \<bar>d\<bar> \<le> (1 + u) ^ (n + 1) * R
           \<and> (1 - u) ^ (n + 4) * R \<le> P
           \<and> P \<le> (1 + u) ^ (n + 4) * R
           \<and> 0 < na \<and> 0 < nb
           \<and> (1 - u) ^ 3 * (sqrt na * sqrt nb) \<le> P
           \<and> P \<le> (1 + u) ^ 3 * (sqrt na * sqrt nb)"
proof -
  let ?T = "sum_list (map (\<lambda>(x, y). \<bar>x * y\<bar>) (zip a b))"
  let ?A = "sum_list (map (\<lambda>x. x * x) a)"
  let ?B = "sum_list (map (\<lambda>x. x * x) b)"
  let ?L = "(1 - u) ^ Suc n" and ?U = "(1 + u) ^ Suc n"
  have mm: "0 < m * m" using m by simp
  have MM: "0 \<le> real n * (M * M)" by simp
  have u1: "0 < 1 - u" "1 - u \<le> 1" "1 \<le> 1 + u" "0 < 1 + u" using u by simp_all
  have L0: "0 < ?L" using u1 by (intro zero_less_power) simp
  have U0: "0 < ?U" using u1 by (intro zero_less_power) simp
  have lo1: "lo \<le> ?L * (m * m)"
    using mm by (intro power_margin_lo [OF u _ lo_ok]) simp_all
  have hi1: "?U * (real n * (M * M)) \<le> hi"
    using MM by (intro power_margin_hi [OF u(1) _ hi_ok]) simp_all
  have "\<exists>d na nb. cosine_loop fl a b (Num 0, Num 0, Num 0) = (Num d, Num na, Num nb)
           \<and> \<bar>d\<bar> \<le> (1 + u) ^ Suc (0 + length a) * (0 + ?T)
           \<and> (1 - u) ^ Suc (0 + length a) * (0 + ?A) \<le> na
           \<and> na \<le> (1 + u) ^ Suc (0 + length a) * (0 + ?A)
           \<and> (1 - u) ^ Suc (0 + length a) * (0 + ?B) \<le> nb
           \<and> nb \<le> (1 + u) ^ Suc (0 + length a) * (0 + ?B)"
    using n by (intro cosine_loop_bounds [OF rw u lo(1) m lo1 hi1 len _ ra rb]) simp_all
  then obtain d na nb where loop:
      "cosine_loop fl a b (Num 0, Num 0, Num 0) = (Num d, Num na, Num nb)"
      and d: "\<bar>d\<bar> \<le> ?U * ?T"
      and na: "?L * ?A \<le> na" "na \<le> ?U * ?A"
      and nb: "?L * ?B \<le> nb" "nb \<le> ?U * ?B"
    using n by auto
  have sq_m: "m * m \<le> z * z" if "z = 0 \<or> (m \<le> \<bar>z\<bar> \<and> \<bar>z\<bar> \<le> M)" "z \<noteq> 0" for z
  proof -
    from that have "m \<le> \<bar>z\<bar>" by auto
    then have "m * m \<le> \<bar>z\<bar> * \<bar>z\<bar>" using m by (intro mult_mono) simp_all
    then show ?thesis by (simp add: abs_mult_self_eq)
  qed
  have sq_M: "z * z \<le> M * M" if "z = 0 \<or> (m \<le> \<bar>z\<bar> \<and> \<bar>z\<bar> \<le> M)" for z
  proof -
    from that m have "\<bar>z\<bar> \<le> M" by auto
    then have "\<bar>z\<bar> * \<bar>z\<bar> \<le> M * M" by (intro mult_mono) simp_all
    then show ?thesis by (simp add: abs_mult_self_eq)
  qed
  have Am: "m * m \<le> ?A"
  proof -
    from nza obtain x where x: "x \<in> set a" "x \<noteq> 0" by blast
    with ra have "m * m \<le> x * x" by (intro sq_m) auto
    with sum_squares_ge [OF x(1)] show ?thesis by simp
  qed
  have Bm: "m * m \<le> ?B"
  proof -
    from nzb obtain y where y: "y \<in> set b" "y \<noteq> 0" by blast
    with rb have "m * m \<le> y * y" by (intro sq_m) auto
    with sum_squares_ge [OF y(1)] show ?thesis by simp
  qed
  have AM: "?A \<le> real n * (M * M)"
    unfolding n using ra sq_M by (intro sum_squares_le) blast
  have BM: "?B \<le> real n * (M * M)"
    unfolding n len using rb sq_M by (intro sum_squares_le) blast
  have range: "lo \<le> z \<and> z \<le> hi"
    if "?L * S \<le> z" "z \<le> ?U * S" "m * m \<le> S" "S \<le> real n * (M * M)" for z S
  proof -
    have "?L * (m * m) \<le> ?L * S" using that(3) L0 by (intro mult_left_mono) simp_all
    moreover have "?U * S \<le> ?U * (real n * (M * M))"
      using that(4) U0 by (intro mult_left_mono) simp_all
    ultimately show ?thesis using that(1,2) lo1 hi1 by simp
  qed
  have ra_: "lo \<le> na \<and> na \<le> hi" by (rule range [OF na Am AM])
  have rb_: "lo \<le> nb \<and> nb \<le> hi" by (rule range [OF nb Bm BM])
  have na0: "0 < na" and nb0: "0 < nb" using ra_ rb_ lo by simp_all
  have "sqrt na = 0 \<or> (lo \<le> sqrt na \<and> sqrt na \<le> hi)"
    using sqrt_in_range [of lo na hi] ra_ lo hi by simp
  from rounds_within_nonneg [OF rw this lo(1)] obtain sa where
    sa: "fl (sqrt na) = Num sa" "(1 - u) * sqrt na \<le> sa" "sa \<le> (1 + u) * sqrt na"
    by blast
  have "sqrt nb = 0 \<or> (lo \<le> sqrt nb \<and> sqrt nb \<le> hi)"
    using sqrt_in_range [of lo nb hi] rb_ lo hi by simp
  from rounds_within_nonneg [OF rw this lo(1)] obtain sb where
    sb: "fl (sqrt nb) = Num sb" "(1 - u) * sqrt nb \<le> sb" "sb \<le> (1 + u) * sqrt nb"
    by blast
  define R where "R = sqrt (?A * ?B)"
  have A0: "0 < ?A" and B0: "0 < ?B" using Am Bm mm by simp_all
  have R0: "0 < R" unfolding R_def using A0 B0 by simp
  have Rm: "m * m \<le> R"
  proof -
    have "(m * m) * (m * m) \<le> ?A * ?B" using Am Bm mm by (intro mult_mono) simp_all
    then have "(m * m)\<^sup>2 \<le> ?A * ?B" by (simp add: power2_eq_square)
    then have "sqrt ((m * m)\<^sup>2) \<le> sqrt (?A * ?B)" by (simp only: real_sqrt_le_iff)
    then show ?thesis unfolding R_def using mm by simp
  qed
  have RM: "R \<le> real n * (M * M)"
  proof -
    have "?A * ?B \<le> (real n * (M * M)) * (real n * (M * M))"
      using AM BM A0 B0 by (intro mult_mono) simp_all
    then have "?A * ?B \<le> (real n * (M * M))\<^sup>2" by (simp add: power2_eq_square)
    then have "sqrt (?A * ?B) \<le> sqrt ((real n * (M * M))\<^sup>2)" by (simp only: real_sqrt_le_iff)
    then show ?thesis unfolding R_def using MM by simp
  qed
  have TR: "?T \<le> R" unfolding R_def by (rule abs_products_le_sqrt [OF len])
  have sq_lo: "?L * R \<le> sqrt na * sqrt nb"
  proof -
    have "0 \<le> na" "0 \<le> ?L * ?B" using na0 L0 B0 by simp_all
    then have "(?L * ?A) * (?L * ?B) \<le> na * nb"
      using na(1) nb(1) by (intro mult_mono) simp_all
    then have "?L\<^sup>2 * (?A * ?B) \<le> na * nb" by (simp add: power2_eq_square algebra_simps)
    then have "sqrt (?L\<^sup>2 * (?A * ?B)) \<le> sqrt (na * nb)" by (simp only: real_sqrt_le_iff)
    then show ?thesis unfolding R_def using L0 by (simp add: real_sqrt_mult)
  qed
  have sq_hi: "sqrt na * sqrt nb \<le> ?U * R"
  proof -
    have "0 \<le> ?U * ?A" using U0 A0 by simp
    then have "na * nb \<le> (?U * ?A) * (?U * ?B)"
      using na(2) nb(2) na0 nb0 by (intro mult_mono) simp_all
    then have "na * nb \<le> ?U\<^sup>2 * (?A * ?B)" by (simp add: power2_eq_square algebra_simps)
    then have "sqrt (na * nb) \<le> sqrt (?U\<^sup>2 * (?A * ?B))" by (simp only: real_sqrt_le_iff)
    then show ?thesis unfolding R_def using U0 by (simp add: real_sqrt_mult)
  qed
  have sa0: "0 < sa" using sa(2) na0 u1
    by (meson less_le_trans mult_pos_pos real_sqrt_gt_zero)
  have sb0: "0 < sb" using sb(2) nb0 u1
    by (meson less_le_trans mult_pos_pos real_sqrt_gt_zero)
  have e3: "x ^ (n + 3) = x * x * x ^ Suc n" for x :: real
  proof -
    have "n + 3 = Suc (Suc (Suc n))" by simp
    then show ?thesis by (simp only: power_Suc mult.assoc)
  qed
  have e4: "x ^ (n + 4) = x * x ^ (n + 3)" for x :: real
  proof -
    have "n + 4 = Suc (n + 3)" by simp
    then show ?thesis by (simp only: power_Suc)
  qed
  have pr_lo: "(1 - u) ^ (n + 3) * R \<le> sa * sb"
  proof -
    have "(1 - u) ^ (n + 3) * R = (1 - u) * (1 - u) * (?L * R)"
      by (simp only: e3 mult.assoc)
    also have "\<dots> \<le> (1 - u) * (1 - u) * (sqrt na * sqrt nb)"
      using sq_lo u1 by (intro mult_left_mono) simp_all
    also have "\<dots> = ((1 - u) * sqrt na) * ((1 - u) * sqrt nb)"
      by (simp only: mult_ac)
    also have "\<dots> \<le> sa * sb"
      using sa(2) sb(2) u1 na0 nb0 sa0 by (intro mult_mono) simp_all
    finally show ?thesis .
  qed
  have pr_hi: "sa * sb \<le> (1 + u) ^ (n + 3) * R"
  proof -
    have "sa * sb \<le> ((1 + u) * sqrt na) * ((1 + u) * sqrt nb)"
      using sa(3) sb(3) u1 na0 nb0 sa0 sb0 by (intro mult_mono) simp_all
    also have "\<dots> = (1 + u) * (1 + u) * (sqrt na * sqrt nb)"
      by (simp only: mult_ac)
    also have "\<dots> \<le> (1 + u) * (1 + u) * (?U * R)"
      using sq_hi u1 by (intro mult_left_mono) simp_all
    also have "\<dots> = (1 + u) ^ (n + 3) * R"
      by (simp only: e3 mult.assoc)
    finally show ?thesis .
  qed
  have "sa * sb = 0 \<or> (lo \<le> sa * sb \<and> sa * sb \<le> hi)"
  proof -
    have "(1 - u) ^ (n + 3) * (m * m) \<le> (1 - u) ^ (n + 3) * R"
      using Rm u1 by (intro mult_left_mono) simp_all
    moreover have "(1 + u) ^ (n + 3) * R \<le> (1 + u) ^ (n + 3) * (real n * (M * M))"
      using RM u1 by (intro mult_left_mono) simp_all
    ultimately show ?thesis using pr_lo pr_hi lo_ok hi_ok by simp
  qed
  from rounds_within_nonneg [OF rw this lo(1)] obtain P where
    P: "fl (sa * sb) = Num P" "(1 - u) * (sa * sb) \<le> P" "P \<le> (1 + u) * (sa * sb)"
    by blast
  have P_lo: "(1 - u) ^ (n + 4) * R \<le> P"
  proof -
    have "(1 - u) ^ (n + 4) * R = (1 - u) * ((1 - u) ^ (n + 3) * R)"
      by (simp only: e4 mult.assoc)
    also have "\<dots> \<le> (1 - u) * (sa * sb)"
      using pr_lo u1 by (intro mult_left_mono) simp_all
    finally show ?thesis using P(2) by simp
  qed
  have P_hi: "P \<le> (1 + u) ^ (n + 4) * R"
  proof -
    have "(1 + u) * (sa * sb) \<le> (1 + u) * ((1 + u) ^ (n + 3) * R)"
      using pr_hi u1 by (intro mult_left_mono) simp_all
    also have "\<dots> = (1 + u) ^ (n + 4) * R"
      by (simp only: e4 mult.assoc)
    finally show ?thesis using P(3) by simp
  qed
  have dR: "\<bar>d\<bar> \<le> (1 + u) ^ (n + 1) * R"
  proof -
    have "?U * ?T \<le> ?U * R" using TR U0 by (intro mult_left_mono) simp_all
    with d show ?thesis by simp
  qed
  have c3: "x ^ 3 = x * (x * x)" for x :: real
    by (simp add: power3_eq_cube mult.assoc)
  have P3_lo: "(1 - u) ^ 3 * (sqrt na * sqrt nb) \<le> P"
  proof -
    have "(1 - u) ^ 3 * (sqrt na * sqrt nb)
          = (1 - u) * (((1 - u) * sqrt na) * ((1 - u) * sqrt nb))"
      by (simp only: c3 mult_ac)
    also have "\<dots> \<le> (1 - u) * (sa * sb)"
      using sa(2) sb(2) u1 na0 nb0 sa0 by (intro mult_left_mono mult_mono) simp_all
    finally show ?thesis using P(2) by simp
  qed
  have P3_hi: "P \<le> (1 + u) ^ 3 * (sqrt na * sqrt nb)"
  proof -
    have "(1 + u) * (sa * sb) \<le> (1 + u) * (((1 + u) * sqrt na) * ((1 + u) * sqrt nb))"
      using sa(3) sb(3) u1 na0 nb0 sa0 sb0 by (intro mult_left_mono mult_mono) simp_all
    also have "\<dots> = (1 + u) ^ 3 * (sqrt na * sqrt nb)"
      by (simp only: c3 mult_ac)
    finally show ?thesis using P(3) by simp
  qed
  have "js_mul fl (js_sqrt fl (Num na)) (js_sqrt fl (Num nb)) = Num P"
    using na0 nb0 by (simp add: sa(1) sb(1) P(1))
  with loop R0 dR P_lo P_hi na0 nb0 P3_lo P3_hi show ?thesis by blast
qed

lemma cosine_loop_same:
  "\<exists>w. cosine_loop fl a a (v, v, v) = (w, w, w)"
  by (induction a arbitrary: v) simp_all

lemma cosine_with_tolerance:
  assumes rw: "rounds_within u lo hi fl" and u: "0 \<le> u" "u < 1"
      and lo: "0 < lo" "lo \<le> 1" and hi: "1 \<le> hi"
      and m: "0 < m" "m \<le> M"
      and lo_ok: "lo \<le> (1 - u) ^ (n + 3) * (m * m)"
      and hi_ok: "(1 + u) ^ (n + 3) * (real n * (M * M)) \<le> hi"
      and q_ok: "(1 + u) ^ (n + 2) / (1 - u) ^ (n + 4) \<le> hi"
      and len: "length a = length b" and n: "n = length a"
      and ra: "\<forall>x\<in>set a. x = 0 \<or> (m \<le> \<bar>x\<bar> \<and> \<bar>x\<bar> \<le> M)"
      and rb: "\<forall>y\<in>set b. y = 0 \<or> (m \<le> \<bar>y\<bar> \<and> \<bar>y\<bar> \<le> M)"
      and nza: "\<exists>x\<in>set a. x \<noteq> 0" and nzb: "\<exists>y\<in>set b. y \<noteq> 0"
  shows "\<exists>c. cosine_with fl msg a b = Inr (Num c)
            \<and> \<bar>c\<bar> \<le> (1 + u) ^ (n + 2) / (1 - u) ^ (n + 4)"
proof -
  from cosine_parts [OF rw u lo hi m lo_ok hi_ok len n ra rb nza nzb]
  obtain d na nb P R where
      loop: "cosine_loop fl a b (Num 0, Num 0, Num 0) = (Num d, Num na, Num nb)"
      and den: "js_mul fl (js_sqrt fl (Num na)) (js_sqrt fl (Num nb)) = Num P"
      and R: "0 < R" and d: "\<bar>d\<bar> \<le> (1 + u) ^ (n + 1) * R"
      and P: "(1 - u) ^ (n + 4) * R \<le> P"
    by blast
  have u1: "0 < 1 - u" "1 \<le> 1 + u" "0 < 1 + u" using u by simp_all
  let ?D = "(1 - u) ^ (n + 4)"
  have D0: "0 < ?D" using u1 by (intro zero_less_power) simp
  have P0: "0 < P" using P D0 R by (meson less_le_trans mult_pos_pos)
  have N1: "1 \<le> (1 + u) ^ (n + 2)" using u1 by (intro one_le_power) simp
  have N0: "0 \<le> (1 + u) ^ (n + 1)" using u1 by (intro zero_le_power) simp
  have q: "\<bar>d / P\<bar> \<le> (1 + u) ^ (n + 1) / ?D"
  proof -
    have "\<bar>d / P\<bar> = \<bar>d\<bar> / P" using P0 by (simp add: abs_divide)
    also have "\<dots> \<le> ((1 + u) ^ (n + 1) * R) / (?D * R)"
      using d P P0 D0 R N0 by (intro frac_le) simp_all
    also have "\<dots> = (1 + u) ^ (n + 1) / ?D" using R by simp
    finally show ?thesis .
  qed
  have e2: "(1 + u) ^ (n + 2) = (1 + u) * (1 + u) ^ (n + 1)"
  proof -
    have "n + 2 = Suc (n + 1)" by simp
    then show ?thesis by (simp only: power_Suc)
  qed
  have q2: "(1 + u) * \<bar>d / P\<bar> \<le> (1 + u) ^ (n + 2) / ?D"
  proof -
    have "(1 + u) * \<bar>d / P\<bar> \<le> (1 + u) * ((1 + u) ^ (n + 1) / ?D)"
      using q u1 by (intro mult_left_mono) simp_all
    then show ?thesis by (simp add: e2)
  qed
  have "1 * \<bar>d / P\<bar> \<le> (1 + u) * \<bar>d / P\<bar>" using u1 by (intro mult_right_mono) simp_all
  with q2 q_ok have "\<bar>d / P\<bar> \<le> hi" by simp
  from rounds_within_abs [OF rw this lo(1) u(1)] obtain c where
    c: "fl (d / P) = Num c" "\<bar>c\<bar> \<le> (1 + u) * \<bar>d / P\<bar> \<or> (d / P \<noteq> 0 \<and> \<bar>c\<bar> \<le> lo)"
    by blast
  have one: "1 \<le> (1 + u) ^ (n + 2) / ?D"
  proof -
    have "?D \<le> 1" using u by (intro power_le_one) simp_all
    with N1 D0 have "?D \<le> (1 + u) ^ (n + 2)" by simp
    then show ?thesis using D0 by (simp add: pos_le_divide_eq)
  qed
  have "\<bar>c\<bar> \<le> (1 + u) ^ (n + 2) / ?D"
    using c(2) q2 one lo(2) by linarith
  moreover have "cosine_with fl msg a b = Inr (Num c)"
  proof -
    have "cosine_with fl msg a b
          = Inr (js_div fl (Num d) (js_mul fl (js_sqrt fl (Num na)) (js_sqrt fl (Num nb))))"
      unfolding cosine_with_def loop using len by simp
    also have "\<dots> = Inr (js_div fl (Num d) (Num P))" by (simp only: den)
    also have "\<dots> = Inr (Num c)" using P0 c(1) by simp
    finally show ?thesis .
  qed
  ultimately show ?thesis by blast
qed

lemma cosine_with_self_tolerance:
  assumes rw: "rounds_within u lo hi fl" and u: "0 \<le> u" "u < 1"
      and lo: "0 < lo" "lo \<le> 1 / 8" and hi: "1 \<le> hi"
      and m: "0 < m" "m \<le> M"
      and lo_ok: "lo \<le> (1 - u) ^ (n + 3) * (m * m)"
      and hi_ok: "(1 + u) ^ (n + 3) * (real n * (M * M)) \<le> hi"
      and q_ok: "(1 + u) ^ (n + 2) / (1 - u) ^ (n + 4) \<le> hi"
      and n: "n = length a"
      and ra: "\<forall>x\<in>set a. x = 0 \<or> (m \<le> \<bar>x\<bar> \<and> \<bar>x\<bar> \<le> M)"
      and nza: "\<exists>x\<in>set a. x \<noteq> 0"
  shows "\<exists>c. cosine_with fl msg a a = Inr (Num c)
            \<and> (1 - u) / (1 + u) ^ 3 \<le> c \<and> c \<le> (1 + u) / (1 - u) ^ 3"
proof -
  have lo1: "lo \<le> 1" using lo by simp
  from cosine_parts [OF rw u lo(1) lo1 hi m lo_ok hi_ok refl n ra ra nza nza]
  obtain d na nb P R where
      loop: "cosine_loop fl a a (Num 0, Num 0, Num 0) = (Num d, Num na, Num nb)"
      and den: "js_mul fl (js_sqrt fl (Num na)) (js_sqrt fl (Num nb)) = Num P"
      and na0: "0 < na"
      and P3: "(1 - u) ^ 3 * (sqrt na * sqrt nb) \<le> P" "P \<le> (1 + u) ^ 3 * (sqrt na * sqrt nb)"
    by blast
  from cosine_loop_same [of fl a "Num 0"] loop have same: "d = na" "nb = na" by auto
  have s: "sqrt na * sqrt na = na" using na0 by simp
  have u1: "0 < 1 - u" "1 \<le> 1 + u" "0 < 1 + u" "1 + u \<le> 2" "1 - u \<le> 1" using u by simp_all
  let ?L = "(1 - u) ^ 3" and ?U = "(1 + u) ^ 3"
  have L0: "0 < ?L" using u1 by (intro zero_less_power) simp
  have U0: "0 < ?U" using u1 by (intro zero_less_power) simp
  have Pl: "?L * na \<le> P" and Pu: "P \<le> ?U * na"
    using P3 [unfolded same s] by simp_all
  have P0: "0 < P" using Pl L0 na0 by (meson less_le_trans mult_pos_pos)
  have q_lo: "1 / ?U \<le> na / P"
  proof -
    have "1 / ?U = na / (?U * na)" using na0 by simp
    also have "\<dots> \<le> na / P" using Pu P0 na0 by (intro divide_left_mono) simp_all
    finally show ?thesis .
  qed
  have q_hi: "na / P \<le> 1 / ?L"
  proof -
    have "na / P \<le> na / (?L * na)"
      using Pl P0 na0 L0 by (intro divide_left_mono) simp_all
    also have "\<dots> = 1 / ?L" using na0 by simp
    finally show ?thesis .
  qed
  have "?U \<le> 2 ^ 3" using u1 by (intro power_mono) simp_all
  then have U8: "?U \<le> 8" by simp
  have "1 / 8 \<le> 1 / ?U" using U8 U0 by (intro divide_left_mono) simp_all
  with lo q_lo have r_lo: "lo \<le> na / P" by simp
  have "1 / ?L \<le> (1 + u) ^ (n + 2) / (1 - u) ^ (n + 4)"
  proof -
    have "1 \<le> (1 + u) ^ (n + 2)" using u1 by (intro one_le_power) simp
    moreover have "0 < (1 - u) ^ (n + 4)" using u1 by (intro zero_less_power) simp
    moreover have "(1 - u) ^ (n + 4) \<le> ?L" using u1 by (intro power_decreasing) simp_all
    ultimately show ?thesis by (intro frac_le) simp_all
  qed
  with q_hi q_ok have r_hi: "na / P \<le> hi" by simp
  have "na / P = 0 \<or> (lo \<le> na / P \<and> na / P \<le> hi)" using r_lo r_hi by simp
  from rounds_within_nonneg [OF rw this lo(1)] obtain c where
    c: "fl (na / P) = Num c" "(1 - u) * (na / P) \<le> c" "c \<le> (1 + u) * (na / P)"
    by blast
  have "(1 - u) * (1 / ?U) \<le> (1 - u) * (na / P)"
    using q_lo u1 by (intro mult_left_mono) simp_all
  with c(2) have c_lo: "(1 - u) / ?U \<le> c" by simp
  have "(1 + u) * (na / P) \<le> (1 + u) * (1 / ?L)"
    using q_hi u1 by (intro mult_left_mono) simp_all
  with c(3) have c_hi: "c \<le> (1 + u) / ?L" by simp
  have "cosine_with fl msg a a = Inr (Num c)"
  proof -
    have "cosine_with fl msg a a
          = Inr (js_div fl (Num d) (js_mul fl (js_sqrt fl (Num na)) (js_sqrt fl (Num nb))))"
      unfolding cosine_with_def loop by simp
    also have "\<dots> = Inr (js_div fl (Num na) (Num P))" by (simp only: same den [unfolded same])
    also have "\<dots> = Inr (Num c)" using P0 c(1) by simp
    finally show ?thesis .
  qed
  with c_lo c_hi show ?thesis by blast
qed

lemma double_margins:
  assumes n: "n \<le> 2 ^ 32"
  shows "(2::real) powr (- 1022)
           \<le> (1 - 2 powr (- 53)) ^ (n + 3) * (2 powr (- 480) * 2 powr (- 480))"
    and "(1 + 2 powr (- 53)) ^ (n + 3) * (real n * (2 powr 480 * 2 powr 480)) \<le> 2 powr 1023"
    and "(1 + 2 powr (- 53)) ^ (n + 2) / (1 - 2 powr (- 53)) ^ (n + 4) \<le> (2::real) powr 1023"
proof -
  let ?u = "(2::real) powr (- 53)"
  have u: "0 \<le> ?u" "?u < 1" "?u \<le> 1" "?u = 1 / 2 ^ 53"
    by (simp_all add: powr_minus powr_numeral divide_simps)
  have rn: "real n \<le> 2 ^ 32" using n by (metis of_nat_le_iff of_nat_numeral of_nat_power)
  have k: "real (n + j) * ?u \<le> 1 / 2" if "j \<le> 4" for j
  proof -
    have "real (n + j) \<le> 2 ^ 32 + 4" using rn that by simp
    then have "real (n + j) * ?u \<le> (2 ^ 32 + 4) * ?u" using u(1) by (intro mult_right_mono)
    also have "\<dots> \<le> 1 / 2" unfolding u(4) by simp
    finally show ?thesis .
  qed
  have lo3: "1 / 2 \<le> (1 - ?u) ^ (n + 3)"
    by (intro power_one_minus_ge_half u k) simp
  have lo4: "1 / 2 \<le> (1 - ?u) ^ (n + 4)"
    by (intro power_one_minus_ge_half u k) simp
  have up3: "(1 + ?u) ^ (n + 3) \<le> 2"
    by (intro power_one_plus_le_two u k) simp
  have up2: "(1 + ?u) ^ (n + 2) \<le> 2"
    by (intro power_one_plus_le_two u k) simp
  have mm: "(2::real) powr (- 480) * 2 powr (- 480) = 2 powr (- 960)"
    by (simp add: powr_add [symmetric])
  have MM: "(2::real) powr 480 * 2 powr 480 = 2 powr 960"
    by (simp add: powr_add [symmetric])
  show "2 powr (- 1022) \<le> (1 - ?u) ^ (n + 3) * (2 powr (- 480) * 2 powr (- 480))"
  proof -
    have "(2::real) powr (- 1022) \<le> 2 powr (- 961)" by (subst powr_le_cancel_iff) simp_all
    also have "\<dots> = (1 / 2) * 2 powr (- 960)"
    proof -
      have "(2::real) powr (- 961) = 2 powr (- 1 + (- 960))" by simp
      also have "\<dots> = 2 powr (- 1) * 2 powr (- 960)" by (simp only: powr_add)
      finally show ?thesis by (simp add: powr_minus)
    qed
    also have "\<dots> \<le> (1 - ?u) ^ (n + 3) * 2 powr (- 960)"
      using lo3 by (intro mult_right_mono) simp_all
    finally show ?thesis by (simp only: mm)
  qed
  show "(1 + ?u) ^ (n + 3) * (real n * (2 powr 480 * 2 powr 480)) \<le> 2 powr 1023"
  proof -
    have "(1 + ?u) ^ (n + 3) * (real n * 2 powr 960) \<le> 2 * (2 ^ 32 * 2 powr 960)"
      using up3 rn by (intro mult_mono) simp_all
    also have "\<dots> = 2 powr 993"
    proof -
      have "(2::real) powr 993 = 2 powr (33 + 960)" by simp
      also have "\<dots> = 2 powr 33 * 2 powr 960" by (simp only: powr_add)
      finally show ?thesis by (simp add: powr_numeral)
    qed
    also have "\<dots> \<le> 2 powr 1023" by (subst powr_le_cancel_iff) simp_all
    finally show ?thesis by (simp only: MM)
  qed
  show "(1 + ?u) ^ (n + 2) / (1 - ?u) ^ (n + 4) \<le> 2 powr 1023"
  proof -
    have "(1 + ?u) ^ (n + 2) / (1 - ?u) ^ (n + 4) \<le> 2 / (1 / 2)"
      using up2 lo4 by (intro frac_le) simp_all
    also have "\<dots> = 2 powr 2" by (simp add: powr_numeral)
    also have "\<dots> \<le> 2 powr 1023" by (subst powr_le_cancel_iff) simp_all
    finally show ?thesis .
  qed
qed

lemma cosine_with_double:
  assumes len: "length a = length b" and n: "length a \<le> 2 ^ 32"
      and ra: "\<forall>x\<in>set a. x = 0 \<or> (2 powr (- 480) \<le> \<bar>x\<bar> \<and> \<bar>x\<bar> \<le> 2 powr 480)"
      and rb: "\<forall>y\<in>set b. y = 0 \<or> (2 powr (- 480) \<le> \<bar>y\<bar> \<and> \<bar>y\<bar> \<le> 2 powr 480)"
      and nza: "\<exists>x\<in>set a. x \<noteq> 0" and nzb: "\<exists>y\<in>set b. y \<noteq> 0"
  shows "\<exists>c. cosine_with round_double msg a b = Inr (Num c)
            \<and> \<bar>c\<bar> \<le> (1 + 2 powr (- 53)) ^ (length a + 2)
                        / (1 - 2 powr (- 53)) ^ (length a + 4)"
    and "\<exists>c. cosine_with round_double msg a a = Inr (Num c)
            \<and> (1 - 2 powr (- 53)) / (1 + 2 powr (- 53)) ^ 3 \<le> c
            \<and> c \<le> (1 + 2 powr (- 53)) / (1 - 2 powr (- 53)) ^ 3"
proof -
  have u: "0 \<le> (2::real) powr (- 53)" "(2::real) powr (- 53) < 1"
    by (simp_all add: powr_minus powr_numeral divide_simps)
  have lo: "0 < (2::real) powr (- 1022)" "(2::real) powr (- 1022) \<le> 1 / 8"
      "(2::real) powr (- 1022) \<le> 1"
    by (simp_all add: powr_minus powr_numeral divide_simps)
  have hi: "1 \<le> (2::real) powr 1023" by (simp add: powr_numeral)
  have m: "0 < (2::real) powr (- 480)" "(2::real) powr (- 480) \<le> 2 powr 480"
    by (simp, subst powr_le_cancel_iff) simp_all
  note mg = double_margins [OF n]
  show "\<exists>c. cosine_with round_double msg a b = Inr (Num c)
            \<and> \<bar>c\<bar> \<le> (1 + 2 powr (- 53)) ^ (length a + 2)
                        / (1 - 2 powr (- 53)) ^ (length a + 4)"
    by (rule cosine_with_tolerance [OF round_double_rounds_within u lo(1) lo(3) hi m mg len refl
          ra rb nza nzb])
  show "\<exists>c. cosine_with round_double msg a a = Inr (Num c)
            \<and> (1 - 2 powr (- 53)) / (1 + 2 powr (- 53)) ^ 3 \<le> c
            \<and> c \<le> (1 + 2 powr (- 53)) / (1 - 2 powr (- 53)) ^ 3"
    by (rule cosine_with_self_tolerance [OF round_double_rounds_within u lo(1) lo(2) hi m mg refl
          ra nza])
qed

lemma round_double_sqrt_3: "round_double (sqrt 3) = Num (7800463371553962 / 2 ^ 52)"
proof -
  have l: "(15600926743107923 / 2 ^ 53 :: real) < sqrt 3"
    by (rule real_less_rsqrt) (simp add: power2_eq_square)
  have h: "sqrt 3 < (15600926743107925 / 2 ^ 53 :: real)"
    by (rule real_less_lsqrt) (simp_all add: power2_eq_square)
  have a: "1 \<le> \<bar>sqrt 3\<bar>" by simp
  have b: "\<bar>sqrt 3\<bar> < 2"
  proof -
    have "sqrt 3 < 2" by (rule real_less_lsqrt) simp_all
    then show ?thesis by simp
  qed
  define X where "X = sqrt 3 * 2 ^ 52"
  have "sqrt 3 = 2 * X / 2 ^ 53" by (simp add: X_def)
  with l h have "15600926743107923 / 2 ^ 53 < 2 * X / 2 ^ 53"
      "2 * X / 2 ^ 53 < 15600926743107925 / 2 ^ 53"
    by simp_all
  then have "15600926743107923 < 2 * X" "2 * X < 15600926743107925"
    by (simp_all add: divide_less_cancel)
  then have "\<bar>X - 7800463371553962\<bar> < 1 / 2" by linarith
  then have c: "\<bar>sqrt 3 * 2 ^ 52 - of_int 7800463371553962\<bar> < 1 / 2"
    by (simp add: X_def)
  from round_double_unit [OF a b c] show ?thesis by simp
qed

lemma round_double_sqrt_3_squared:
  "round_double (7800463371553962 / 2 ^ 52 * (7800463371553962 / 2 ^ 52))
   = Num (6755399441055743 / 2 ^ 51)"
  using round_double_two [of "7800463371553962 / 2 ^ 52 * (7800463371553962 / 2 ^ 52)"
      6755399441055743]
  by simp

lemma round_double_3_over: "round_double (3 / (6755399441055743 / 2 ^ 51)) = Num (1 + 1 / 2 ^ 52)"
  using round_double_unit [of "3 / (6755399441055743 / 2 ^ 51)" 4503599627370497]
  by simp

lemma cosine_with_ones:
  "cosine_with round_double msg [1, 1, 1] [1, 1, 1] = Inr (Num (1 + 1 / 2 ^ 52))"
proof -
  let ?s = "7800463371553962 / 2 ^ 52 :: real"
  let ?p = "6755399441055743 / 2 ^ 51 :: real"
  have loop: "cosine_loop round_double [1, 1, 1] [1, 1, 1] (Num 0, Num 0, Num 0)
        = (Num 3, Num 3, Num 3)"
    by (simp add: round_double_small_integers)
  have "js_sqrt round_double (Num 3) = round_double (sqrt 3)" by simp
  then have s: "js_sqrt round_double (Num 3) = Num ?s" by (simp only: round_double_sqrt_3)
  have p: "js_mul round_double (Num ?s) (Num ?s) = Num ?p"
    by (simp only: js_mul.simps round_double_sqrt_3_squared)
  have "js_div round_double (Num 3) (Num ?p) = round_double (3 / ?p)" by simp
  then have q: "js_div round_double (Num 3) (Num ?p) = Num (1 + 1 / 2 ^ 52)"
    by (simp only: round_double_3_over)
  have "cosine_with round_double msg [1, 1, 1] [1, 1, 1]
        = Inr (js_div round_double (Num 3)
                 (js_mul round_double (js_sqrt round_double (Num 3))
                    (js_sqrt round_double (Num 3))))"
    unfolding cosine_with_def loop
    by (simp del: js_sqrt.simps js_mul.simps js_div.simps)
  also have "\<dots> = Inr (Num (1 + 1 / 2 ^ 52))" by (simp only: s p q)
  finally show ?thesis .
qed

lemma cosine_with_tiny:
  "cosine_with round_double msg [2 powr (- 600)] [2 powr (- 600)] = Inr NaN"
proof -
  have sq: "(2::real) powr (- 600) * 2 powr (- 600) = 2 powr (- 1200)"
    by (simp add: powr_add [symmetric])
  have "\<bar>(2::real) powr (- 1200)\<bar> < 2 powr (- 1075)"
    by (simp only: abs_of_pos powr_gt_zero) (subst powr_less_cancel_iff, simp_all)
  then have z: "round_double (2 powr (- 1200)) = Num 0" by (rule round_double_underflow)
  have "cosine_loop round_double [2 powr (- 600)] [2 powr (- 600)] (Num 0, Num 0, Num 0)
        = (Num 0, Num 0, Num 0)"
    by (simp add: sq z round_double_zero del: powr_numeral powr_neg_numeral)
  then show ?thesis
    by (simp add: cosine_with_def round_double_zero)
qed

lemma round_double_sqrt_2: "round_double (sqrt 2) = Num (6369051672525773 / 2 ^ 52)"
proof -
  have l: "(12738103345051545 / 2 ^ 53 :: real) < sqrt 2"
    by (rule real_less_rsqrt) (simp add: power2_eq_square)
  have h: "sqrt 2 < (12738103345051547 / 2 ^ 53 :: real)"
    by (rule real_less_lsqrt) (simp_all add: power2_eq_square)
  have a: "1 \<le> \<bar>sqrt 2\<bar>" by simp
  have b: "\<bar>sqrt 2\<bar> < 2"
  proof -
    have "sqrt 2 < 2" by (rule real_less_lsqrt) simp_all
    then show ?thesis by simp
  qed
  define X where "X = sqrt 2 * 2 ^ 52"
  have "sqrt 2 = 2 * X / 2 ^ 53" by (simp add: X_def)
  with l h have "12738103345051545 / 2 ^ 53 < 2 * X / 2 ^ 53"
      "2 * X / 2 ^ 53 < 12738103345051547 / 2 ^ 53"
    by simp_all
  then have "12738103345051545 < 2 * X" "2 * X < 12738103345051547"
    by (simp_all add: divide_less_cancel)
  then have "\<bar>X - 6369051672525773\<bar> < 1 / 2" by linarith
  then have c: "\<bar>sqrt 2 * 2 ^ 52 - of_int 6369051672525773\<bar> < 1 / 2"
    by (simp add: X_def)
  from round_double_unit [OF a b c] show ?thesis by simp
qed

lemma round_double_sqrt_2_squared:
  "round_double (6369051672525773 / 2 ^ 52 * (6369051672525773 / 2 ^ 52))
   = Num (4503599627370497 / 2 ^ 51)"
  using round_double_two [of "6369051672525773 / 2 ^ 52 * (6369051672525773 / 2 ^ 52)"
      4503599627370497]
  by simp

lemma round_double_2_over: "round_double (2 / (4503599627370497 / 2 ^ 51)) = Num (1 - 1 / 2 ^ 52)"
proof -
  have p: "(2::real) powr (- 53) = 1 / 2 ^ 53" "(2::real) powr (- 1) = 1 / 2"
    by (simp_all add: powr_minus powr_numeral divide_simps)
  have "round_double (2 / (4503599627370497 / 2 ^ 51))
        = Num (of_int 9007199254740990 * 2 powr (of_int (- 1) - 52))"
  proof (rule round_double_eval)
    show "\<bar>2 / (4503599627370497 / 2 ^ 51) / 2 powr (of_int (- 1) - 52)
            - of_int 9007199254740990\<bar> < (1 / 2 :: real)"
      by (simp add: p)
    show "2 powr of_int (- 1) \<le> \<bar>2 / (4503599627370497 / 2 ^ 51) :: real\<bar>" by (simp add: p)
    show "\<bar>2 / (4503599627370497 / 2 ^ 51) :: real\<bar> < 2 powr (of_int (- 1) + 1)" by simp
  qed simp_all
  then show ?thesis by (simp add: p)
qed

text \<open>
  The similarity of \<open>[1, 1]\<close> with itself comes out under 1: the square root of 2 is
  rounded up, its square is \<open>2 + 2^-51\<close>, and the quotient is \<open>1 - 2^-52\<close>.
\<close>

lemma cosine_with_pair_of_ones:
  "cosine_with round_double msg [1, 1] [1, 1] = Inr (Num (1 - 1 / 2 ^ 52))"
proof -
  let ?s = "6369051672525773 / 2 ^ 52 :: real"
  let ?p = "4503599627370497 / 2 ^ 51 :: real"
  have loop: "cosine_loop round_double [1, 1] [1, 1] (Num 0, Num 0, Num 0)
        = (Num 2, Num 2, Num 2)"
    by (simp add: round_double_small_integers)
  have "js_sqrt round_double (Num 2) = round_double (sqrt 2)" by simp
  then have s: "js_sqrt round_double (Num 2) = Num ?s" by (simp only: round_double_sqrt_2)
  have p: "js_mul round_double (Num ?s) (Num ?s) = Num ?p"
    by (simp only: js_mul.simps round_double_sqrt_2_squared)
  have "js_div round_double (Num 2) (Num ?p) = round_double (2 / ?p)" by simp
  then have q: "js_div round_double (Num 2) (Num ?p) = Num (1 - 1 / 2 ^ 52)"
    by (simp only: round_double_2_over)
  have "cosine_with round_double msg [1, 1] [1, 1]
        = Inr (js_div round_double (Num 2)
                 (js_mul round_double (js_sqrt round_double (Num 2))
                    (js_sqrt round_double (Num 2))))"
    unfolding cosine_with_def loop
    by (simp del: js_sqrt.simps js_mul.simps js_div.simps)
  also have "\<dots> = Inr (Num (1 - 1 / 2 ^ 52))" by (simp only: s p q)
  finally show ?thesis .
qed

text \<open>
  C9, as amended. For two vectors of one length, at most \<open>2^32\<close>, neither of them all zeros,
  whose nonzero elements are between \<open>2^-480\<close> and \<open>2^480\<close> in size (so that no square and
  no sum of the loop overflows or falls under the smallest normal double), the similarity
  that \<open>cosineSimilarity\<close> computes in binary64 arithmetic is a number, not \<open>NaN\<close> and not an
  infinity, of size at most \<open>(1 + u)^(n+2) / (1 - u)^(n+4)\<close>, where \<open>n\<close> is the length and
  \<open>u = 2^-53\<close> the largest relative error of one rounding; and the similarity of such a
  vector with itself lies between \<open>(1 - u) / (1 + u)^3\<close> and \<open>(1 + u) / (1 - u)^3\<close>. The
  same holds of the \<open>cosineSimilarity\<close> of the indexer. Every \<open>Float32Array\<close> element is
  zero or between \<open>2^-149\<close> and \<open>2^128\<close> in size, so the vectors the indexer compares are in
  this range.
\<close>

theorem cosineSimilarity_within_tolerance:
  assumes len: "length a = length b" and n: "length a \<le> 2 ^ 32"
      and ra: "\<forall>x\<in>set a. x = 0 \<or> (2 powr (- 480) \<le> \<bar>x\<bar> \<and> \<bar>x\<bar> \<le> 2 powr 480)"
      and rb: "\<forall>y\<in>set b. y = 0 \<or> (2 powr (- 480) \<le> \<bar>y\<bar> \<and> \<bar>y\<bar> \<le> 2 powr 480)"
      and nza: "\<exists>x\<in>set a. x \<noteq> 0" and nzb: "\<exists>y\<in>set b. y \<noteq> 0"
  shows "(\<exists>c. cosineSimilarity round_double a b = Inr (Num c)
            \<and> \<bar>c\<bar> \<le> (1 + 2 powr (- 53)) ^ (length a + 2)
                        / (1 - 2 powr (- 53)) ^ (length a + 4))
       \<and> (\<exists>c. indexer_cosineSimilarity round_double a b = Inr (Num c)
            \<and> \<bar>c\<bar> \<le> (1 + 2 powr (- 53)) ^ (length a + 2)
                        / (1 - 2 powr (- 53)) ^ (length a + 4))
       \<and> (\<exists>c. cosineSimilarity round_double a a = Inr (Num c)
            \<and> (1 - 2 powr (- 53)) / (1 + 2 powr (- 53)) ^ 3 \<le> c
            \<and> c \<le> (1 + 2 powr (- 53)) / (1 - 2 powr (- 53)) ^ 3)
       \<and> (\<exists>c. indexer_cosineSimilarity round_double a a = Inr (Num c)
            \<and> (1 - 2 powr (- 53)) / (1 + 2 powr (- 53)) ^ 3 \<le> c
            \<and> c \<le> (1 + 2 powr (- 53)) / (1 - 2 powr (- 53)) ^ 3)"
  unfolding cosineSimilarity_def indexer_cosineSimilarity_def
  using cosine_with_double [OF len n ra rb nza nzb] by blast

theorem cosineSimilarity_within_tolerance_witness:
  "length [3, 4 :: real] = length [4, 3 :: real]
   \<and> length [3, 4 :: real] \<le> 2 ^ 32
   \<and> map (\<lambda>x. x = 0 \<or> (2 powr (- 480) \<le> \<bar>x\<bar> \<and> \<bar>x\<bar> \<le> 2 powr 480)) [3, 4 :: real]
       = [True, True]
   \<and> map (\<lambda>x. x = 0 \<or> (2 powr (- 480) \<le> \<bar>x\<bar> \<and> \<bar>x\<bar> \<le> 2 powr 480)) [4, 3 :: real]
       = [True, True]
   \<and> (\<exists>c. cosineSimilarity round_double [3, 4] [4, 3] = Inr (Num c)
          \<and> \<bar>c\<bar> \<le> (1 + 2 powr (- 53)) ^ 4 / (1 - 2 powr (- 53)) ^ 6)
   \<and> (\<exists>c. cosineSimilarity round_double [3, 4] [3, 4] = Inr (Num c)
          \<and> (1 - 2 powr (- 53)) / (1 + 2 powr (- 53)) ^ 3 \<le> c
          \<and> c \<le> (1 + 2 powr (- 53)) / (1 - 2 powr (- 53)) ^ 3)"
proof -
  have len: "length [3, 4 :: real] = length [4, 3 :: real]" by simp
  have n: "length [3, 4 :: real] \<le> 2 ^ 32" by simp
  have lo: "(2::real) powr (- 480) \<le> 3" "(2::real) powr (- 480) \<le> 4"
    by (simp_all add: powr_minus powr_numeral divide_simps)
  have hi: "3 \<le> (2::real) powr 480" "4 \<le> (2::real) powr 480"
    by (simp_all add: powr_numeral)
  have ra: "\<forall>x\<in>set [3, 4 :: real]. x = 0 \<or> (2 powr (- 480) \<le> \<bar>x\<bar> \<and> \<bar>x\<bar> \<le> 2 powr 480)"
    using lo hi by simp
  have rb: "\<forall>x\<in>set [4, 3 :: real]. x = 0 \<or> (2 powr (- 480) \<le> \<bar>x\<bar> \<and> \<bar>x\<bar> \<le> 2 powr 480)"
    using lo hi by simp
  have ma: "map (\<lambda>x. x = 0 \<or> (2 powr (- 480) \<le> \<bar>x\<bar> \<and> \<bar>x\<bar> \<le> 2 powr 480)) [3, 4 :: real]
            = [True, True]"
    using lo hi by simp
  have mb: "map (\<lambda>x. x = 0 \<or> (2 powr (- 480) \<le> \<bar>x\<bar> \<and> \<bar>x\<bar> \<le> 2 powr 480)) [4, 3 :: real]
            = [True, True]"
    using lo hi by simp
  have nza: "\<exists>x\<in>set [3, 4 :: real]. x \<noteq> 0" by simp
  have nzb: "\<exists>x\<in>set [4, 3 :: real]. x \<noteq> 0" by simp
  have e: "length [3, 4 :: real] + 2 = 4" "length [3, 4 :: real] + 4 = 6" by simp_all
  from cosineSimilarity_within_tolerance [OF len n ra rb nza nzb, unfolded e]
  have "(\<exists>c. cosineSimilarity round_double [3, 4] [4, 3] = Inr (Num c)
          \<and> \<bar>c\<bar> \<le> (1 + 2 powr (- 53)) ^ 4 / (1 - 2 powr (- 53)) ^ 6)"
    and "(\<exists>c. cosineSimilarity round_double [3, 4] [3, 4] = Inr (Num c)
          \<and> (1 - 2 powr (- 53)) / (1 + 2 powr (- 53)) ^ 3 \<le> c
          \<and> c \<le> (1 + 2 powr (- 53)) / (1 - 2 powr (- 53)) ^ 3)"
    by blast+
  with len n ma mb show ?thesis by blast
qed

text \<open>
  The claim as first stated fails in two ways. The square of \<open>2^-600\<close> is under half the
  smallest double and is rounded to 0, so the similarity of the nonzero vector \<open>[2^-600]\<close>
  with itself is \<open>0 / 0\<close>, which is \<open>NaN\<close>. And for \<open>[1, 1, 1]\<close> the square root of 3 is
  rounded down, its square is \<open>3 - 2^-51\<close>, and the quotient is rounded to \<open>1 + 2^-52\<close>,
  which is above 1.
\<close>

theorem cosineSimilarity_counterexample:
  "(2 powr (- 600) :: real) \<noteq> 0
   \<and> cosineSimilarity round_double [2 powr (- 600)] [2 powr (- 600)] = Inr NaN
   \<and> cosineSimilarity round_double [1, 1, 1] [1, 1, 1] = Inr (Num (1 + 1 / 2 ^ 52))
   \<and> indexer_cosineSimilarity round_double [1, 1, 1] [1, 1, 1] = Inr (Num (1 + 1 / 2 ^ 52))"
  unfolding cosineSimilarity_def indexer_cosineSimilarity_def
  using cosine_with_tiny cosine_with_ones by simp

section \<open>Properties of the codebase indexer\<close>

lemma string_of_small_nat: "string_of_nat (Suc 0) = ''1''" "string_of_nat 1 = ''1''" "string_of_nat 2 = ''2''" "string_of_nat 3 = ''3''"
  "string_of_nat 4 = ''4''"
  by (simp_all add: string_of_nat.simps digit_char_def)

subsection \<open>An unmodified file is skipped\<close>

lemma find_first_row:
  assumes "\<exists>r\<in>set rows. cc_file_path r = F"
  shows "\<exists>r. find (\<lambda>r. cc_file_path r = F) rows = Some r \<and> r \<in> set rows \<and> cc_file_path r = F"
proof (cases "find (\<lambda>r. cc_file_path r = F) rows")
  case None
  then show ?thesis using assms by (auto simp: find_None_iff)
next
  case (Some r)
  then show ?thesis by (auto simp: find_Some_iff)
qed

text \<open>
  C3. If the index holds rows for a file \<open>F\<close> and none of them has a \<open>last_modified\<close> older
  than the modification time \<open>stat\<close> reports now, then \<open>indexFile(F)\<close> changes nothing but
  the record of its one \<open>stat\<close> call: \<open>code_chunks\<close> is the same list (no DELETE, no
  INSERT) and no embedding is requested.
\<close>

theorem indexFile_skips_unmodified:
  assumes st: "ix_stat env F = Inr m"
      and ex: "\<exists>r\<in>set (code_chunks st). cc_file_path r = F"
      and old: "\<forall>r\<in>set (code_chunks st). cc_file_path r = F \<longrightarrow> m \<le> cc_last_modified r"
  shows "indexFile env st F = (if shouldIndexFile env F = Inr True then emit (EvStat F) st else st)
       \<and> code_chunks (indexFile env st F) = code_chunks st
       \<and> (\<exists>evs. trace (indexFile env st F) = trace st @ evs \<and> set evs \<subseteq> {EvStat F})"
proof -
  obtain r where r: "find (\<lambda>r. cc_file_path r = F) (code_chunks st) = Some r"
      "r \<in> set (code_chunks st)" "cc_file_path r = F"
    using find_first_row [OF ex] by blast
  then have le: "m \<le> cc_last_modified r" using old by blast
  have eq: "indexFile env st F
            = (if shouldIndexFile env F = Inr True then emit (EvStat F) st else st)"
    using st r(1) le
    by (auto simp add: indexFile_def Let_def emit_def split: sum.splits)
  show ?thesis
    unfolding eq by (simp add: emit_def)
qed

theorem indexFile_skips_unmodified_witness:
  "ix_stat fs_env ''/p/a.ts'' = Inr 5
   \<and> map cc_file_path (code_chunks (indexed_state 5)) = [''/p/a.ts'']
   \<and> map cc_last_modified (code_chunks (indexed_state 5)) = [5]
   \<and> code_chunks (indexFile fs_env (indexed_state 5) ''/p/a.ts'') = code_chunks (indexed_state 5)
   \<and> trace (indexFile fs_env (indexed_state 5) ''/p/a.ts'') = [EvStat ''/p/a.ts'']"
proof -
  have h1: "ix_stat fs_env ''/p/a.ts'' = Inr 5"
    by (simp add: fs_env_def)
  have rows: "map cc_file_path (code_chunks (indexed_state 5)) = [''/p/a.ts'']"
      "map cc_last_modified (code_chunks (indexed_state 5)) = [5]"
    by (simp_all add: indexed_state_def old_row_def)
  have h2: "\<exists>r\<in>set (code_chunks (indexed_state 5)). cc_file_path r = ''/p/a.ts''"
    by (simp add: indexed_state_def old_row_def)
  have h3: "\<forall>r\<in>set (code_chunks (indexed_state 5)).
              cc_file_path r = ''/p/a.ts'' \<longrightarrow> 5 \<le> cc_last_modified r"
    by (simp add: indexed_state_def old_row_def)
  have s: "shouldIndexFile fs_env ''/p/a.ts'' = Inr True"
    by (simp add: shouldIndexFile_def fs_env_def SUPPORTED_EXTENSIONS_def)
  from indexFile_skips_unmodified [OF h1 h2 h3] s
  have "indexFile fs_env (indexed_state 5) ''/p/a.ts'' = emit (EvStat ''/p/a.ts'') (indexed_state 5)"
    by simp
  then show ?thesis
    using h1 rows by (simp add: emit_def) (simp add: indexed_state_def)
qed

subsection \<open>A modified file is indexed again\<close>

lemma index_chunk_others:
  "filter (\<lambda>r. cc_file_path r \<noteq> F) (code_chunks (index_chunk env F rel m c s))
   = filter (\<lambda>r. cc_file_path r \<noteq> F) (code_chunks s)"
  by (simp add: index_chunk_def Let_def emit_def chunk_row_of_def split: sum.splits)

lemma fold_index_chunk_others:
  "filter (\<lambda>r. cc_file_path r \<noteq> F) (code_chunks (fold (index_chunk env F rel m) cs s))
   = filter (\<lambda>r. cc_file_path r \<noteq> F) (code_chunks s)"
  by (induction cs arbitrary: s) (simp_all add: index_chunk_others)

lemma index_chunk_ok:
  assumes "ix_generateEmbedding env (ck_code c) = Inr e"
      and "chunk_row_id rel c \<notin> cc_id ` set (code_chunks s)"
  shows "code_chunks (index_chunk env F rel m c s) = code_chunks s @ [chunk_row_of env F rel m c e]"
  using assms
  by (simp add: index_chunk_def Let_def emit_def chunk_row_of_def)

lemma should_has_language:
  assumes "shouldIndexFile env F = Inr True"
  shows "getLanguage env F \<noteq> ''unknown''"
  using assms
  by (auto simp add: shouldIndexFile_def getLanguage_def SUPPORTED_EXTENSIONS_def Let_def
        split: if_splits)

lemma indexFile_reindex:
  assumes should: "shouldIndexFile env F = Inr True"
      and stt: "ix_stat env F = Inr m"
      and modified: "\<forall>r\<in>set (code_chunks st). cc_file_path r = F \<longrightarrow> cc_last_modified r < m"
      and rd: "ix_readFile env F = Inr content"
      and ch: "ix_chunkCode env content (getLanguage env F) = Inr chunks"
  shows "code_chunks (indexFile env st F)
         = code_chunks (fold (index_chunk env F (ix_relative env (ix_projectRoot env) F) m) chunks
             (emit (EvChunkCode content (getLanguage env F))
               ((emit (EvDelete F) (emit (EvReadFile F) (emit (EvStat F) st)))
                  \<lparr>code_chunks := filter (\<lambda>r. cc_file_path r \<noteq> F) (code_chunks st)\<rparr>)))"
proof -
  have nf: "\<not> (case find (\<lambda>r. cc_file_path r = F) (code_chunks st) of
                 None \<Rightarrow> False | Some r \<Rightarrow> m \<le> cc_last_modified r)"
  proof (cases "find (\<lambda>r. cc_file_path r = F) (code_chunks st)")
    case None
    then show ?thesis by simp
  next
    case (Some r)
    then have "r \<in> set (code_chunks st)" "cc_file_path r = F"
      by (auto simp: find_Some_iff)
    with modified have "cc_last_modified r < m" by blast
    with Some show ?thesis by simp
  qed
  show ?thesis
    using should stt rd ch nf should_has_language [OF should]
    by (simp add: indexFile_def Let_def emit_def)
qed

lemma fold_index_chunk_stored:
  "code_chunks (fold (index_chunk env F rel m) cs s)
   = code_chunks s
     @ map (\<lambda>c. chunk_row_of env F rel m c (projr (ix_generateEmbedding env (ck_code c))))
         (stored_chunks env rel (cc_id ` set (code_chunks s)) cs)"
proof (induction cs arbitrary: s)
  case Nil
  then show ?case by simp
next
  case (Cons c cs)
  show ?case
  proof (cases "ix_generateEmbedding env (ck_code c)")
    case (Inl e)
    then have "code_chunks (index_chunk env F rel m c s) = code_chunks s"
      by (simp add: index_chunk_def emit_def)
    with Inl show ?thesis by (simp add: Cons.IH)
  next
    case (Inr e)
    show ?thesis
    proof (cases "chunk_row_id rel c \<in> cc_id ` set (code_chunks s)")
      case True
      with Inr have "code_chunks (index_chunk env F rel m c s) = code_chunks s"
        by (simp add: index_chunk_def emit_def Let_def chunk_row_of_def)
      with Inr True show ?thesis by (simp add: Cons.IH)
    next
      case False
      have "code_chunks (index_chunk env F rel m c s)
            = code_chunks s @ [chunk_row_of env F rel m c e]"
        by (rule index_chunk_ok [OF Inr False])
      with Inr False show ?thesis by (simp add: Cons.IH chunk_row_of_def)
    qed
  qed
qed

lemma stored_chunks_fresh:
  assumes "distinct (map (chunk_row_id rel)
             (filter (\<lambda>c. \<not> isl (ix_generateEmbedding env (ck_code c))) cs))"
      and "\<forall>c\<in>set cs. \<not> isl (ix_generateEmbedding env (ck_code c)) \<longrightarrow> chunk_row_id rel c \<notin> ids"
  shows "stored_chunks env rel ids cs
         = filter (\<lambda>c. \<not> isl (ix_generateEmbedding env (ck_code c))) cs"
  using assms
proof (induction cs arbitrary: ids)
  case Nil
  then show ?case by simp
next
  case (Cons c cs)
  show ?case
  proof (cases "isl (ix_generateEmbedding env (ck_code c))")
    case True
    with Cons.prems show ?thesis by (simp add: Cons.IH)
  next
    case False
    with Cons.prems have n: "chunk_row_id rel c \<notin> ids" by simp
    have d: "distinct (map (chunk_row_id rel)
               (filter (\<lambda>c. \<not> isl (ix_generateEmbedding env (ck_code c))) cs))"
      and nin: "chunk_row_id rel c \<notin> chunk_row_id rel
                  ` set (filter (\<lambda>c. \<not> isl (ix_generateEmbedding env (ck_code c))) cs)"
      using Cons.prems(1) False by simp_all
    have "\<forall>c'\<in>set cs. \<not> isl (ix_generateEmbedding env (ck_code c')) \<longrightarrow>
            chunk_row_id rel c' \<notin> insert (chunk_row_id rel c) ids"
    proof (intro ballI impI)
      fix c' assume c': "c' \<in> set cs" "\<not> isl (ix_generateEmbedding env (ck_code c'))"
      then have "c' \<in> set (filter (\<lambda>c. \<not> isl (ix_generateEmbedding env (ck_code c))) cs)"
        by simp
      then have "chunk_row_id rel c' \<in> chunk_row_id rel
                  ` set (filter (\<lambda>c. \<not> isl (ix_generateEmbedding env (ck_code c))) cs)"
        by (rule imageI)
      with nin have "chunk_row_id rel c' \<noteq> chunk_row_id rel c" by metis
      moreover have "chunk_row_id rel c' \<notin> ids" using Cons.prems(2) c' by simp
      ultimately show "chunk_row_id rel c' \<notin> insert (chunk_row_id rel c) ids" by simp
    qed
    from Cons.IH [OF d this]
    have "stored_chunks env rel (insert (chunk_row_id rel c) ids) cs
          = filter (\<lambda>c. \<not> isl (ix_generateEmbedding env (ck_code c))) cs" .
    with False n show ?thesis by simp
  qed
qed

text \<open>
  C4, as amended. When \<open>indexFile(F)\<close> re-indexes a file \<open>F\<close> whose stored rows are older than
  its modification time (\<open>F\<close> passes \<open>shouldIndexFile\<close>, and \<open>stat\<close>, \<open>readFile\<close> and the
  chunker succeed), the rows of the other files are untouched and the rows of \<open>F\<close> are
  exactly the rows of the chunks the loop stores, in the chunker's order: the chunks whose
  embedding succeeds and whose row id the table does not hold yet. When the ids of the
  chunks whose embedding succeeds are distinct and not held by a row of another file, these
  are exactly the chunks whose embedding succeeds. Every row of \<open>F\<close> carries the new
  modification time, so no row of the old version remains.
\<close>

theorem indexFile_replaces_chunks:
  assumes should: "shouldIndexFile env F = Inr True"
      and stt: "ix_stat env F = Inr m"
      and modified: "\<forall>r\<in>set (code_chunks st). cc_file_path r = F \<longrightarrow> cc_last_modified r < m"
      and rd: "ix_readFile env F = Inr content"
      and ch: "ix_chunkCode env content (getLanguage env F) = Inr chunks"
  shows "filter (\<lambda>r. cc_file_path r \<noteq> F) (code_chunks (indexFile env st F))
           = filter (\<lambda>r. cc_file_path r \<noteq> F) (code_chunks st)
       \<and> filter (\<lambda>r. cc_file_path r = F) (code_chunks (indexFile env st F))
           = map (\<lambda>c. chunk_row_of env F (ix_relative env (ix_projectRoot env) F) m c
                        (projr (ix_generateEmbedding env (ck_code c))))
               (stored_chunks env (ix_relative env (ix_projectRoot env) F)
                  (cc_id ` set (filter (\<lambda>r. cc_file_path r \<noteq> F) (code_chunks st))) chunks)
       \<and> (distinct (map (chunk_row_id (ix_relative env (ix_projectRoot env) F))
                      (filter (\<lambda>c. \<not> isl (ix_generateEmbedding env (ck_code c))) chunks))
            \<and> (\<forall>c\<in>set chunks. \<forall>r\<in>set (code_chunks st).
                  \<not> isl (ix_generateEmbedding env (ck_code c)) \<and> cc_file_path r \<noteq> F \<longrightarrow>
                   cc_id r \<noteq> chunk_row_id (ix_relative env (ix_projectRoot env) F) c)
          \<longrightarrow> filter (\<lambda>r. cc_file_path r = F) (code_chunks (indexFile env st F))
              = map (\<lambda>c. chunk_row_of env F (ix_relative env (ix_projectRoot env) F) m c
                           (projr (ix_generateEmbedding env (ck_code c))))
                  (filter (\<lambda>c. \<not> isl (ix_generateEmbedding env (ck_code c))) chunks))
       \<and> (\<forall>r\<in>set (code_chunks (indexFile env st F)). cc_file_path r = F \<longrightarrow>
             cc_last_modified r = m)"
proof -
  let ?rel = "ix_relative env (ix_projectRoot env) F"
  let ?others = "filter (\<lambda>r. cc_file_path r \<noteq> F) (code_chunks st)"
  let ?row = "\<lambda>c. chunk_row_of env F ?rel m c (projr (ix_generateEmbedding env (ck_code c)))"
  let ?ok = "\<lambda>c. \<not> isl (ix_generateEmbedding env (ck_code c))"
  let ?s4 = "emit (EvChunkCode content (getLanguage env F))
               ((emit (EvDelete F) (emit (EvReadFile F) (emit (EvStat F) st)))
                  \<lparr>code_chunks := ?others\<rparr>)"
  have eq: "code_chunks (indexFile env st F)
            = code_chunks (fold (index_chunk env F ?rel m) chunks ?s4)"
    by (rule indexFile_reindex [OF should stt modified rd ch])
  have s4: "code_chunks ?s4 = ?others"
    by (simp add: emit_def)
  have all: "code_chunks (indexFile env st F)
             = ?others @ map ?row (stored_chunks env ?rel (cc_id ` set ?others) chunks)"
    unfolding eq fold_index_chunk_stored s4 ..
  have a: "filter (\<lambda>r. cc_file_path r \<noteq> F) (code_chunks (indexFile env st F)) = ?others"
    by (simp add: all filter_map comp_def chunk_row_of_def)
  have b: "filter (\<lambda>r. cc_file_path r = F) (code_chunks (indexFile env st F))
           = map ?row (stored_chunks env ?rel (cc_id ` set ?others) chunks)"
    by (simp add: all filter_map comp_def chunk_row_of_def)
  have c: "filter (\<lambda>r. cc_file_path r = F) (code_chunks (indexFile env st F))
           = map ?row (filter ?ok chunks)"
    if d: "distinct (map (chunk_row_id ?rel) (filter ?ok chunks))"
      and fr: "\<forall>c\<in>set chunks. \<forall>r\<in>set (code_chunks st).
                 ?ok c \<and> cc_file_path r \<noteq> F \<longrightarrow> cc_id r \<noteq> chunk_row_id ?rel c"
  proof -
    have "\<forall>c\<in>set chunks. ?ok c \<longrightarrow> chunk_row_id ?rel c \<notin> cc_id ` set ?others"
    proof (intro ballI impI notI)
      fix c assume c: "c \<in> set chunks" "?ok c" "chunk_row_id ?rel c \<in> cc_id ` set ?others"
      then obtain r where "r \<in> set (code_chunks st)" "cc_file_path r \<noteq> F"
          "cc_id r = chunk_row_id ?rel c"
        by auto
      with fr c show False by blast
    qed
    from stored_chunks_fresh [OF d this] show ?thesis
      by (simp only: b)
  qed
  have d: "cc_last_modified r = m"
    if "r \<in> set (code_chunks (indexFile env st F))" "cc_file_path r = F" for r
  proof -
    from that have "r \<in> set (filter (\<lambda>r. cc_file_path r = F) (code_chunks (indexFile env st F)))"
      by simp
    then show ?thesis
      unfolding b by (auto simp add: chunk_row_of_def)
  qed
  from a b c d show ?thesis by blast
qed

theorem indexFile_replaces_chunks_witness:
  "shouldIndexFile fs_env_flaky ''/p/a.ts'' = Inr True
   \<and> ix_stat fs_env_flaky ''/p/a.ts'' = Inr 5
   \<and> map cc_last_modified (code_chunks (indexed_state 3)) = [3]
   \<and> ix_readFile fs_env_flaky ''/p/a.ts'' = Inr ''new''
   \<and> ix_chunkCode fs_env_flaky ''new'' (getLanguage fs_env_flaky ''/p/a.ts'')
       = Inr [chunk_a, chunk_b]
   \<and> map (\<lambda>c. isl (ix_generateEmbedding fs_env_flaky (ck_code c))) [chunk_a, chunk_b]
       = [False, True]
   \<and> filter (\<lambda>r. cc_file_path r \<noteq> ''/p/a.ts'') (code_chunks (indexed_state 3)) = []
   \<and> filter (\<lambda>r. cc_file_path r = ''/p/a.ts'')
         (code_chunks (indexFile fs_env_flaky (indexed_state 3) ''/p/a.ts''))
       = [\<lparr>cc_id = ''a.ts:1-2:function'', cc_file_path = ''/p/a.ts'',
           cc_relative_path = ''a.ts'', cc_content = ''a'', cc_start_line = 1, cc_end_line = 2,
           cc_chunk_type = ''function'', cc_chunk_name = Some ''f'',
           cc_language = ''typescript'', cc_embedding = [1, 0], cc_last_modified = 5,
           cc_created_at = 0\<rparr>]"
proof -
  have h1: "shouldIndexFile fs_env_flaky ''/p/a.ts'' = Inr True"
    by (simp add: shouldIndexFile_def fs_env_flaky_def fs_env_def SUPPORTED_EXTENSIONS_def)
  have h2: "ix_stat fs_env_flaky ''/p/a.ts'' = Inr 5"
    by (simp add: fs_env_flaky_def fs_env_def)
  have rows: "map cc_last_modified (code_chunks (indexed_state 3)) = [3]"
    by (simp add: indexed_state_def old_row_def)
  have h3: "\<forall>r\<in>set (code_chunks (indexed_state 3)).
              cc_file_path r = ''/p/a.ts'' \<longrightarrow> cc_last_modified r < 5"
    by (simp add: indexed_state_def old_row_def)
  have h4: "ix_readFile fs_env_flaky ''/p/a.ts'' = Inr ''new''"
    by (simp add: fs_env_flaky_def fs_env_def)
  have h5: "ix_chunkCode fs_env_flaky ''new'' (getLanguage fs_env_flaky ''/p/a.ts'')
            = Inr [chunk_a, chunk_b]"
    by (simp add: fs_env_flaky_def fs_env_def)
  have e: "map (\<lambda>c. isl (ix_generateEmbedding fs_env_flaky (ck_code c))) [chunk_a, chunk_b]
           = [False, True]"
    by (simp add: fs_env_flaky_def fs_env_def chunk_a_def chunk_b_def)
  have o: "filter (\<lambda>r. cc_file_path r \<noteq> ''/p/a.ts'') (code_chunks (indexed_state 3)) = []"
    by (simp add: indexed_state_def old_row_def)
  have f: "filter (\<lambda>c. \<not> isl (ix_generateEmbedding fs_env_flaky (ck_code c))) [chunk_a, chunk_b]
           = [chunk_a]"
    using e by simp
  have d: "distinct (map (chunk_row_id (ix_relative fs_env_flaky (ix_projectRoot fs_env_flaky)
                                          ''/p/a.ts''))
             (filter (\<lambda>c. \<not> isl (ix_generateEmbedding fs_env_flaky (ck_code c)))
                [chunk_a, chunk_b]))"
    by (simp only: f) simp
  have fr: "\<forall>c\<in>set [chunk_a, chunk_b]. \<forall>r\<in>set (code_chunks (indexed_state 3)).
              \<not> isl (ix_generateEmbedding fs_env_flaky (ck_code c)) \<and> cc_file_path r \<noteq> ''/p/a.ts''
              \<longrightarrow> cc_id r \<noteq> chunk_row_id (ix_relative fs_env_flaky (ix_projectRoot fs_env_flaky)
                                           ''/p/a.ts'') c"
    by (simp add: indexed_state_def old_row_def)
  from indexFile_replaces_chunks [OF h1 h2 h3 h4 h5] d fr
  have "filter (\<lambda>r. cc_file_path r = ''/p/a.ts'')
          (code_chunks (indexFile fs_env_flaky (indexed_state 3) ''/p/a.ts''))
        = map (\<lambda>c. chunk_row_of fs_env_flaky ''/p/a.ts''
                     (ix_relative fs_env_flaky (ix_projectRoot fs_env_flaky) ''/p/a.ts'') 5 c
                     (projr (ix_generateEmbedding fs_env_flaky (ck_code c))))
            (filter (\<lambda>c. \<not> isl (ix_generateEmbedding fs_env_flaky (ck_code c)))
               [chunk_a, chunk_b])"
    by blast
  then have "filter (\<lambda>r. cc_file_path r = ''/p/a.ts'')
          (code_chunks (indexFile fs_env_flaky (indexed_state 3) ''/p/a.ts''))
       = [\<lparr>cc_id = ''a.ts:1-2:function'', cc_file_path = ''/p/a.ts'',
           cc_relative_path = ''a.ts'', cc_content = ''a'', cc_start_line = 1, cc_end_line = 2,
           cc_chunk_type = ''function'', cc_chunk_name = Some ''f'',
           cc_language = ''typescript'', cc_embedding = [1, 0], cc_last_modified = 5,
           cc_created_at = 0\<rparr>]"
    by (simp only: f)
       (simp add: chunk_row_of_def chunk_row_id_def chunk_a_def fs_env_flaky_def fs_env_def
          or_null_def string_of_small_nat)
  with h1 h2 rows h4 h5 e o show ?thesis by blast
qed

text \<open>
  The claim as first stated, that the rows of \<open>F\<close> are then exactly the chunker's chunks,
  fails when an embedding fails: the loop logs the error and goes on, and the chunk is
  missing from the index. Here the chunker returns two chunks and one row is stored.
\<close>

theorem indexFile_partial_counterexample:
  "shouldIndexFile fs_env_flaky ''/p/a.ts'' = Inr True
   \<and> ix_stat fs_env_flaky ''/p/a.ts'' = Inr 5
   \<and> map cc_last_modified (code_chunks (indexed_state 3)) = [3]
   \<and> ix_readFile fs_env_flaky ''/p/a.ts'' = Inr ''new''
   \<and> ix_chunkCode fs_env_flaky ''new'' ''typescript'' = Inr [chunk_a, chunk_b]
   \<and> map cc_content (filter (\<lambda>r. cc_file_path r = ''/p/a.ts'')
        (code_chunks (indexFile fs_env_flaky (indexed_state 3) ''/p/a.ts''))) = [''a'']"
  by (auto simp add: fs_env_flaky_def fs_env_def indexed_state_def old_row_def shouldIndexFile_def
        SUPPORTED_EXTENSIONS_def emit_def indexFile_def getLanguage_def index_chunk_def
        chunk_row_of_def chunk_row_id_def chunk_a_def chunk_b_def Let_def string_of_small_nat)

subsection \<open>One pass at a time\<close>

lemma finish_task_Completed: "finish_task env Completed st = st"
  by (simp add: finish_task.simps)

lemma finish_task_next_chunk:
  "(case next_chunk f m chunks st of (task, st') \<Rightarrow> finish_task env task st')
     = fold (index_chunk env f (ix_relative env (ix_projectRoot env) f) m) chunks st"
proof (induction chunks arbitrary: st)
  case Nil
  then show ?case by (simp add: next_chunk_def finish_task_Completed)
next
  case (Cons c cs)
  have p: "finish_task env (AwaitPause f m cs) s
           = (case next_chunk f m cs s of (task, st') \<Rightarrow> finish_task env task st')" for s
    by (subst finish_task.simps) simp
  show ?case
    apply (simp add: next_chunk_def)
    apply (subst finish_task.simps)
    apply (simp add: index_chunk_def Let_def Cons.IH [symmetric] p split: sum.splits)
    done
qed

lemma indexFile_as_task:
  "indexFile env st f = (case start_task env f st of (task, st') \<Rightarrow> finish_task env task st')"
proof -
  have r: "finish_task env (AwaitRead f m) s
           = (case resume env (AwaitRead f m) s of (task, st') \<Rightarrow> finish_task env task st')"
    for m s
    by (subst finish_task.simps) simp
  have a: "finish_task env (AwaitStat f) s
           = (case resume env (AwaitStat f) s of (task, st') \<Rightarrow> finish_task env task st')"
    for s
    by (subst finish_task.simps) simp
  show ?thesis
    by (simp add: indexFile_def start_task_def a r Let_def finish_task_Completed
          finish_task_next_chunk emit_def
          split: sum.splits option.splits)
qed

lemma next_chunk_isIndexing: "isIndexing (snd (next_chunk f m chunks st)) = isIndexing st"
  by (simp add: next_chunk_def emit_def split: list.splits)

lemma start_task_isIndexing: "isIndexing (snd (start_task env f st)) = isIndexing st"
  by (simp add: start_task_def emit_def split: sum.splits)

lemma resume_isIndexing: "isIndexing (snd (resume env task st)) = isIndexing st"
  by (cases "(env, task, st)" rule: resume.cases)
     (simp_all add: next_chunk_isIndexing Let_def emit_def split: sum.splits option.splits)

lemma step_invariant:
  assumes "step env c c'" "snd c = (if isIndexing (fst c) then 1 else 0)"
  shows "snd c' = (if isIndexing (fst c') then 1 else 0)"
  using assms
proof (induction rule: step.induct)
  case (file_started f st task st' n)
  then show ?case using start_task_isIndexing [of env f st] by simp
next
  case (file_resumed task st task' st' n)
  then show ?case using resume_isIndexing [of env task st] by simp
qed (auto simp add: indexCodebase_enter_def indexCodebase_finally_def write_stats_def
       split: if_splits)

lemma reachable_invariant:
  assumes "reachable env c"
  shows "snd c = (if isIndexing (fst c) then 1 else 0)"
  using assms
proof (induction rule: reachable.induct)
  case (start st)
  then show ?case by simp
next
  case (after c c')
  then show ?case using step_invariant by blast
qed

lemma indexCodebase_rejected_does_no_work:
  "isIndexing st \<Longrightarrow> indexCodebase env st = (Inr (indexer_getStats st), st)"
  by (simp add: indexCodebase_def indexCodebase_enter_def)

lemma indexCodebase_one_pass_at_a_time:
  "reachable env (st, n) \<Longrightarrow> n \<le> 1 \<and> (isIndexing st \<longleftrightarrow> n = 1)"
  using reachable_invariant [of env "(st, n)"] by (simp split: if_splits)

lemma getStats_reads_missing_properties:
  "indexer_getStats st
     = \<lparr>totalFiles = 0, totalChunks = int (length (code_chunks st)), lastIndexed = 0,
        indexDuration = 0\<rparr>"
  by (simp add: indexer_getStats_def row_property_def or_zero_def)

text \<open>
  C8. The claim: a call of \<open>indexCodebase\<close> made while a pass is in progress does no
  indexing work and returns the current index statistics at once, and no two passes ever
  run together. The call does no work and no two passes run together (lemmas
  \<open>indexCodebase_rejected_does_no_work\<close> and \<open>indexCodebase_one_pass_at_a_time\<close>), but what
  it returns are not the current statistics: \<open>getStats\<close> reads
  \<open>totalFiles\<close>, \<open>lastIndexed\<close> and \<open>indexDuration\<close> from a row whose columns are
  \<open>total_files\<close>, \<open>last_indexed\<close> and \<open>index_duration\<close>, so the three are always 0. Here the
  table says one file, last indexed at 7, in 2 ms, a pass is in progress, and the rejected
  call reports zeros.
\<close>

theorem indexCodebase_rejected_call_reports_zeros:
  "isIndexing busy_state
   \<and> index_stats_table busy_state
       = \<lparr>total_files = 1, total_chunks = 1, last_indexed = 7, index_duration = 2\<rparr>
   \<and> reachable fs_env (busy_state, 1)
   \<and> indexCodebase fs_env busy_state
       = (Inr \<lparr>totalFiles = 0, totalChunks = 1, lastIndexed = 0, indexDuration = 0\<rparr>,
          busy_state)"
proof -
  have r0: "reachable fs_env (indexed_state 5, 0)"
    by (rule reachable.start) (simp add: indexed_state_def)
  have s: "step fs_env (indexed_state 5, 0) (busy_state, Suc 0)"
    by (rule step.call_entered)
       (simp add: indexCodebase_enter_def indexed_state_def busy_state_def)
  have r1: "reachable fs_env (busy_state, 1)"
    using reachable.after [OF r0 s] by simp
  show ?thesis
    using r1
    by (simp add: indexCodebase_def indexCodebase_enter_def indexer_getStats_def
          row_property_def or_zero_def busy_state_def indexed_state_def)
qed

subsection \<open>Searching the index\<close>























end
